theory Spec2Isabelle
  imports Main "HOL-Library.Word"
begin

section \<open>The delta-queue scheduler (linked-list implementation)\<close>

text \<open>
  The scheduler keeps its pending tasks in a singly linked list of \<open>TaskNode\<close>s whose
  \<open>Delay\<close> fields are relative to the preceding node. The list is modelled as a HOL list
  in link order (the head node first); the four globals of the C file are the fields of
  the record \<open>sched\<close>. All counters are 32-bit unsigned and wrap as in C; the error
  register is 8 bits wide.

  Two things lie outside the C file and are made explicit:
  \<^item> \<open>malloc\<close> may return \<open>NULL\<close>. \<open>SCH_Add_Task\<close> takes the outcome of its single
    allocation as a boolean argument; \<open>SCH_Dispatch_Tasks\<close> takes one outcome per loop
    iteration (each iteration allocates at most once).
  \<^item> A callback is an opaque function pointer, here a number with \<open>0\<close> for \<open>NULL\<close>.
    Invoking it is recorded in the field \<open>executed\<close>; callbacks are taken not to call
    back into the scheduler.
\<close>

subsection \<open>Data model\<close>

type_synonym u32 = "32 word"
type_synonym u8 = "8 word"
type_synonym fptr = nat

definition NULL :: fptr where
  "NULL = 0"

definition ERROR_SCH_TOO_MANY_TASKS :: u8 where
  "ERROR_SCH_TOO_MANY_TASKS = 1"

definition ERROR_SCH_CANNOT_DELETE_TASK :: u8 where
  "ERROR_SCH_CANNOT_DELETE_TASK = 2"

definition ERROR_SCH_TASK_NOT_FOUND :: u8 where
  "ERROR_SCH_TASK_NOT_FOUND = 3"

definition NO_TASK_ID :: u32 where
  "NO_TASK_ID = 0"

record TaskNode =
  pTask :: fptr
  Delay :: u32
  Period :: u32
  TaskID :: u32

record sched =
  g_TaskListHead :: "TaskNode list"
  g_CurrentTick :: u32
  g_NextTaskID :: u32
  g_ErrorCode :: u8
  executed :: "fptr list"

subsection \<open>SCH\_Init\<close>

text \<open>The loop that unlinks and frees every node, one per iteration.\<close>

fun free_all :: "TaskNode list \<Rightarrow> TaskNode list" where
  "free_all [] = []"
| "free_all (temp # rest) = free_all rest"

definition SCH_Init :: "sched \<Rightarrow> sched" where
  "SCH_Init s =
     s\<lparr>g_TaskListHead := free_all (g_TaskListHead s),
       g_CurrentTick := 0,
       g_NextTaskID := 1,
       g_ErrorCode := 0\<rparr>"

subsection \<open>SCH\_Update\<close>

definition SCH_Update :: "sched \<Rightarrow> sched" where
  "SCH_Update s =
     (let s1 = s\<lparr>g_CurrentTick := g_CurrentTick s + 1\<rparr> in
      case g_TaskListHead s1 of
        [] \<Rightarrow> s1
      | h # t \<Rightarrow>
          if 0 < Delay h then s1\<lparr>g_TaskListHead := h\<lparr>Delay := Delay h - 1\<rparr> # t\<rparr>
          else s1)"

subsection \<open>Sorted insertion\<close>

text \<open>
  The search loop of the insertion code. \<open>insert_after newTask DELAY acc nexts\<close> is given
  the list that starts at \<open>current->next\<close> and the value \<open>acc\<close> of \<open>accumulatedTime\<close>;
  it returns the list that starts at \<open>current->next\<close> once the new node is linked in.
  The additions and subtractions are those of \<open>uint32_t\<close>.
\<close>

fun insert_after :: "TaskNode \<Rightarrow> u32 \<Rightarrow> u32 \<Rightarrow> TaskNode list \<Rightarrow> TaskNode list" where
  "insert_after newTask DELAY acc [] = [newTask\<lparr>Delay := DELAY - acc\<rparr>]"
| "insert_after newTask DELAY acc (n # ns) =
     (if acc + Delay n \<le> DELAY then n # insert_after newTask DELAY (acc + Delay n) ns
      else newTask\<lparr>Delay := DELAY - acc\<rparr> # n\<lparr>Delay := Delay n - (DELAY - acc)\<rparr> # ns)"

text \<open>
  The whole insertion: at the head when the list is empty or \<open>DELAY\<close> is strictly below
  the head's delay, otherwise after the node found by the search loop. The same code
  occurs twice in the C file, in \<open>SCH_Add_Task\<close> and (with \<open>savedPeriod\<close> for
  \<open>DELAY\<close>) in \<open>SCH_Dispatch_Tasks\<close>.
\<close>

definition insert_task :: "TaskNode \<Rightarrow> u32 \<Rightarrow> TaskNode list \<Rightarrow> TaskNode list" where
  "insert_task newTask DELAY q =
     (case q of
        [] \<Rightarrow> [newTask\<lparr>Delay := DELAY\<rparr>]
      | h # t \<Rightarrow>
          if DELAY < Delay h
          then newTask\<lparr>Delay := DELAY\<rparr> # h\<lparr>Delay := Delay h - DELAY\<rparr> # t
          else h # insert_after newTask DELAY (Delay h) t)"

subsection \<open>SCH\_Add\_Task\<close>

text \<open>
  The result is the new state and the returned task id. The node's \<open>Delay\<close> is
  written by the insertion code on either branch; until then the freshly allocated
  field holds no meaningful value (here \<open>0\<close>).
\<close>

definition SCH_Add_Task :: "fptr \<Rightarrow> u32 \<Rightarrow> u32 \<Rightarrow> bool \<Rightarrow> sched \<Rightarrow> sched \<times> u32" where
  "SCH_Add_Task pFunction DELAY PERIOD malloc_ok s =
     (if pFunction = NULL then (s\<lparr>g_ErrorCode := ERROR_SCH_TOO_MANY_TASKS\<rparr>, NO_TASK_ID)
      else if \<not> malloc_ok then (s\<lparr>g_ErrorCode := ERROR_SCH_TOO_MANY_TASKS\<rparr>, NO_TASK_ID)
      else
        let newTask = \<lparr>pTask = pFunction, Delay = 0, Period = PERIOD, TaskID = g_NextTaskID s\<rparr>;
            s1 = s\<lparr>g_NextTaskID := g_NextTaskID s + 1\<rparr>
        in (s1\<lparr>g_TaskListHead := insert_task newTask DELAY (g_TaskListHead s1)\<rparr>,
            TaskID newTask))"

subsection \<open>SCH\_Delete\_Task\<close>

text \<open>
  The scan for the node to delete, started at \<open>current\<close>. \<open>None\<close> means the loop ran off
  the end of the list. On a match the node is unlinked and its delay is added to the
  node that followed it; the C code writes this separately for the head and for an
  inner node, with the same effect on the list.
\<close>

fun delete_scan :: "u32 \<Rightarrow> TaskNode list \<Rightarrow> TaskNode list option" where
  "delete_scan taskID [] = None"
| "delete_scan taskID (current # rest) =
     (if TaskID current = taskID
      then Some (case rest of
                   [] \<Rightarrow> []
                 | n # ns \<Rightarrow> n\<lparr>Delay := Delay n + Delay current\<rparr> # ns)
      else map_option (Cons current) (delete_scan taskID rest))"

definition SCH_Delete_Task :: "u32 \<Rightarrow> sched \<Rightarrow> sched \<times> u8" where
  "SCH_Delete_Task taskID s =
     (if g_TaskListHead s = [] then (s\<lparr>g_ErrorCode := ERROR_SCH_CANNOT_DELETE_TASK\<rparr>, 0)
      else case delete_scan taskID (g_TaskListHead s) of
             Some q \<Rightarrow> (s\<lparr>g_TaskListHead := q\<rparr>, 1)
           | None \<Rightarrow> (s\<lparr>g_ErrorCode := ERROR_SCH_TASK_NOT_FOUND\<rparr>, 0))"

subsection \<open>SCH\_Get\_Current\_Time and SCH\_Get\_Error\_Code\<close>

definition SCH_Get_Current_Time :: "sched \<Rightarrow> u32" where
  "SCH_Get_Current_Time s = g_CurrentTick s * 10"

definition SCH_Get_Error_Code :: "sched \<Rightarrow> sched \<times> u8" where
  "SCH_Get_Error_Code s = (s\<lparr>g_ErrorCode := 0\<rparr>, g_ErrorCode s)"

subsection \<open>SCH\_Dispatch\_Tasks\<close>

text \<open>
  One iteration of the dispatch loop, entered with a head node whose delay is zero:
  unlink the head, run its callback, and for a periodic task allocate a new node and
  insert it with \<open>DELAY = savedPeriod\<close>. When the allocation fails nothing further is
  done.
\<close>

definition head_due :: "sched \<Rightarrow> bool" where
  "head_due s = (case g_TaskListHead s of [] \<Rightarrow> False | h # t \<Rightarrow> Delay h = 0)"

definition dispatch_one :: "bool \<Rightarrow> sched \<Rightarrow> sched" where
  "dispatch_one malloc_ok s =
     (case g_TaskListHead s of
        [] \<Rightarrow> s
      | taskToRun # rest \<Rightarrow>
          let s1 = s\<lparr>g_TaskListHead := rest\<rparr>;
              s2 = (if pTask taskToRun \<noteq> NULL
                    then s1\<lparr>executed := executed s1 @ [pTask taskToRun]\<rparr> else s1)
          in if 0 < Period taskToRun then
               if malloc_ok then
                 let rescheduled = \<lparr>pTask = pTask taskToRun, Delay = 0,
                                    Period = Period taskToRun, TaskID = TaskID taskToRun\<rparr>
                 in s2\<lparr>g_TaskListHead :=
                         insert_task rescheduled (Period taskToRun) (g_TaskListHead s2)\<rparr>
               else s2
             else s2)"

text \<open>
  The loop of \<open>SCH_Dispatch_Tasks\<close> runs while the head's delay is zero. It terminates
  because a rescheduled node has a nonzero period and is therefore linked in behind
  every node of zero delay at the front: the number of leading zero-delay nodes drops
  with each iteration.
\<close>

definition due_count :: "TaskNode list \<Rightarrow> nat" where
  "due_count q = length (takeWhile (\<lambda>n. Delay n = 0) q)"

lemma due_count_insert_after:
  "DELAY \<noteq> 0 \<Longrightarrow> due_count (insert_after newTask DELAY 0 q) \<le> due_count q"
  by (induction q) (auto simp: due_count_def)

lemma due_count_insert_task:
  "DELAY \<noteq> 0 \<Longrightarrow> due_count (insert_task newTask DELAY q) \<le> due_count q"
  using due_count_insert_after [of DELAY newTask "tl q"]
  by (cases q) (auto simp: insert_task_def due_count_def word_less_nat_alt word_le_nat_alt)

lemma due_count_dispatch_one:
  assumes "head_due s"
  shows "due_count (g_TaskListHead (dispatch_one ok s)) < due_count (g_TaskListHead s)"
proof (cases "g_TaskListHead s")
  case Nil
  with assms show ?thesis by (simp add: head_due_def)
next
  case (Cons t rest)
  with assms have z: "Delay t = 0" by (simp add: head_due_def)
  have "due_count (g_TaskListHead (dispatch_one ok s)) \<le> due_count rest"
    using Cons due_count_insert_task [of "Period t" _ rest]
    by (auto simp: dispatch_one_def Let_def word_gt_0)
  also have "due_count rest < due_count (t # rest)"
    using z by (simp add: due_count_def)
  finally show ?thesis using Cons by simp
qed

text \<open>
  \<open>SCH_Dispatch_loop malloc_ok k s\<close> is the loop entered for its \<open>k\<close>-th iteration
  (counted from zero) in state \<open>s\<close>; \<open>malloc_ok k\<close> tells whether the allocation of that
  iteration succeeds.
\<close>

function SCH_Dispatch_loop :: "(nat \<Rightarrow> bool) \<Rightarrow> nat \<Rightarrow> sched \<Rightarrow> sched" where
  "SCH_Dispatch_loop malloc_ok k s =
     (if head_due s then SCH_Dispatch_loop malloc_ok (Suc k) (dispatch_one (malloc_ok k) s)
      else s)"
  by pat_completeness auto
termination
  by (relation "measure (\<lambda>(malloc_ok, k, s). due_count (g_TaskListHead s))")
     (auto simp: due_count_dispatch_one)

definition SCH_Dispatch_Tasks :: "(nat \<Rightarrow> bool) \<Rightarrow> sched \<Rightarrow> sched" where
  "SCH_Dispatch_Tasks malloc_ok s = SCH_Dispatch_loop malloc_ok 0 s"

section \<open>Cumulative delays\<close>

text \<open>
  The sum of the relative delays of a list of nodes, as a natural number (no
  wrap-around), and the cumulative delay of the node at index \<open>i\<close>: the sum over that node
  and all nodes before it.
\<close>

definition total_delay :: "TaskNode list \<Rightarrow> nat" where
  "total_delay q = sum_list (map (\<lambda>n. unat (Delay n)) q)"

definition cum_delay :: "TaskNode list \<Rightarrow> nat \<Rightarrow> nat" where
  "cum_delay q i = total_delay (take (Suc i) q)"

text \<open>The running sums of a list of nodes, started at \<open>a\<close>.\<close>

fun cums :: "nat \<Rightarrow> TaskNode list \<Rightarrow> nat list" where
  "cums a [] = []"
| "cums a (n # ns) = (a + unat (Delay n)) # cums (a + unat (Delay n)) ns"

text \<open>
  What the insertion code does to the list behind the new node: the node that follows
  gives up \<open>d\<close> ticks of its relative delay.
\<close>

definition donate :: "u32 \<Rightarrow> TaskNode list \<Rightarrow> TaskNode list" where
  "donate d q = (case q of [] \<Rightarrow> [] | n # ns \<Rightarrow> n\<lparr>Delay := Delay n - d\<rparr> # ns)"

text \<open>
  Two positions in a queue, for a requested delay: the index of the first node whose
  cumulative delay is strictly above it, and the index of the first node whose cumulative
  delay is at least it (the length of the queue when there is no such node).
\<close>

definition first_above :: "u32 \<Rightarrow> TaskNode list \<Rightarrow> nat" where
  "first_above DELAY q = length (takeWhile (\<lambda>i. cum_delay q i \<le> unat DELAY) [0..<length q])"

definition first_at_least :: "u32 \<Rightarrow> TaskNode list \<Rightarrow> nat" where
  "first_at_least DELAY q = length (takeWhile (\<lambda>i. cum_delay q i < unat DELAY) [0..<length q])"

text \<open>
  \<open>placed_at k tid q q'\<close>: the ids of \<open>q'\<close> are those of \<open>q\<close> with \<open>tid\<close> put in at
  index \<open>k\<close>.
\<close>

definition placed_at :: "nat \<Rightarrow> u32 \<Rightarrow> TaskNode list \<Rightarrow> TaskNode list \<Rightarrow> bool" where
  "placed_at k tid q q' = (map TaskID q' = map TaskID (take k q) @ tid # map TaskID (drop k q))"

section \<open>Where the code links and unlinks\<close>

text \<open>
  The number of nodes the search loop of the insertion code steps over, given the list
  that starts at \<open>current->next\<close> and the value of \<open>accumulatedTime\<close>, and from it the
  index at which \<open>insert_task\<close> links the new node in.
\<close>

fun walk_length :: "u32 \<Rightarrow> u32 \<Rightarrow> TaskNode list \<Rightarrow> nat" where
  "walk_length DELAY acc [] = 0"
| "walk_length DELAY acc (n # ns) =
     (if acc + Delay n \<le> DELAY then Suc (walk_length DELAY (acc + Delay n) ns) else 0)"

definition link_index :: "u32 \<Rightarrow> TaskNode list \<Rightarrow> nat" where
  "link_index DELAY q =
     (case q of [] \<Rightarrow> 0
      | h # t \<Rightarrow> if DELAY < Delay h then 0 else Suc (walk_length DELAY (Delay h) t))"

text \<open>The number of nodes the scan of \<open>SCH_Delete_Task\<close> passes before it stops.\<close>

definition scan_length :: "u32 \<Rightarrow> TaskNode list \<Rightarrow> nat" where
  "scan_length taskID q = length (takeWhile (\<lambda>n. TaskID n \<noteq> taskID) q)"

section \<open>Runs of the scheduler and their bookkeeping\<close>

text \<open>
  A run is a list of calls of \<open>SCH_Add_Task\<close> (with the outcome of its allocation),
  \<open>SCH_Delete_Task\<close> and \<open>SCH_Update\<close>.
\<close>

datatype op = AddTask fptr u32 u32 bool | DeleteTask u32 | Tick

fun exec :: "op \<Rightarrow> sched \<Rightarrow> sched" where
  "exec (AddTask pFunction DELAY PERIOD malloc_ok) s =
     fst (SCH_Add_Task pFunction DELAY PERIOD malloc_ok s)"
| "exec (DeleteTask taskID) s = fst (SCH_Delete_Task taskID s)"
| "exec Tick s = SCH_Update s"

text \<open>
  Beside the scheduler state a run keeps, for each queued node and in queue order, a
  registration entry: the id the node was given, the delay it was registered with, the
  number of ticks since then, and the number of those ticks that found the head of the
  queue with a positive delay. The entry of a new node is put in at the index the
  insertion code links the node at; the entry of a deleted node is taken out at the
  index the scan stops at. The scheduler does not read these entries.
\<close>

record reg =
  reg_id :: u32
  requested :: nat
  elapsed :: nat
  counted :: nat

definition head_positive :: "sched \<Rightarrow> bool" where
  "head_positive s = (case g_TaskListHead s of [] \<Rightarrow> False | h # t \<Rightarrow> 0 < Delay h)"

fun track :: "op \<Rightarrow> sched \<Rightarrow> reg list \<Rightarrow> reg list" where
  "track (AddTask pFunction DELAY PERIOD malloc_ok) s g =
     (if pFunction = NULL \<or> \<not> malloc_ok then g
      else take (link_index DELAY (g_TaskListHead s)) g @
           \<lparr>reg_id = g_NextTaskID s, requested = unat DELAY, elapsed = 0, counted = 0\<rparr> #
           drop (link_index DELAY (g_TaskListHead s)) g)"
| "track (DeleteTask taskID) s g =
     take (scan_length taskID (g_TaskListHead s)) g @
     drop (Suc (scan_length taskID (g_TaskListHead s))) g"
| "track Tick s g =
     map (\<lambda>r. r\<lparr>elapsed := elapsed r + 1,
                 counted := (if head_positive s then counted r + 1 else counted r)\<rparr>) g"

fun run :: "op list \<Rightarrow> sched \<times> reg list \<Rightarrow> sched \<times> reg list" where
  "run [] sg = sg"
| "run (x # xs) sg = run xs (exec x (fst sg), track x (fst sg) (snd sg))"

text \<open>
  The relation between a queue and its registration entries: every node's cumulative
  delay is the requested delay less the counted ticks, the ids agree, and no entry has
  counted more ticks than were requested or than have elapsed.
\<close>

definition tracked :: "sched \<Rightarrow> reg list \<Rightarrow> bool" where
  "tracked s g \<longleftrightarrow>
     cums 0 (g_TaskListHead s) = map (\<lambda>r. requested r - counted r) g \<and>
     map TaskID (g_TaskListHead s) = map reg_id g \<and>
     (\<forall>r \<in> set g. counted r \<le> requested r \<and> requested r < 2 ^ 32 \<and>
                    counted r \<le> elapsed r)"

section \<open>The queue after a dispatch\<close>

text \<open>
  The node that \<open>SCH_Dispatch_Tasks\<close> allocates for a periodic task: callback, period
  and id are copied from the node that was run; the delay is written by the insertion.
\<close>

definition rescheduled_node :: "TaskNode \<Rightarrow> TaskNode" where
  "rescheduled_node z = \<lparr>pTask = pTask z, Delay = 0, Period = Period z, TaskID = TaskID z\<rparr>"

text \<open>
  What the dispatch loop does to the queue, told without the loop: the due nodes
  \<open>zs\<close> at the front are taken off one by one, and each periodic one whose allocation
  succeeds is inserted into the remaining queue \<open>rest\<close> with its period as delay.
  (\<open>dispatch_loop_queue\<close> below shows that this is the queue the loop produces.)
\<close>

fun requeue :: "(nat \<Rightarrow> bool) \<Rightarrow> nat \<Rightarrow> TaskNode list \<Rightarrow> TaskNode list \<Rightarrow> TaskNode list" where
  "requeue malloc_ok k [] rest = rest"
| "requeue malloc_ok k (z # zs) rest =
     requeue malloc_ok (Suc k) zs
       (if 0 < Period z \<and> malloc_ok k then insert_task (rescheduled_node z) (Period z) rest
        else rest)"

text \<open>A queue whose relative delays sum to less than \<open>2^32\<close>.\<close>

definition no_wrap :: "TaskNode list \<Rightarrow> bool" where
  "no_wrap q \<longleftrightarrow> total_delay q < 2 ^ 32"

text \<open>
  What identifies a task apart from its delay, and the list of the tasks of a queue
  paired with their cumulative delays.
\<close>

definition key :: "TaskNode \<Rightarrow> u32 \<times> fptr \<times> u32" where
  "key n = (TaskID n, pTask n, Period n)"

definition entries :: "TaskNode list \<Rightarrow> ((u32 \<times> fptr \<times> u32) \<times> nat) list" where
  "entries q = zip (map key q) (cums 0 q)"

section \<open>Concrete states and runs\<close>

text \<open>
  Two queued tasks: a one-shot task due in 3 ticks and a periodic task due in 7 ticks
  (relative delay 4), after 20 ticks and two registrations.
\<close>

definition demo_state :: sched where
  "demo_state =
     \<lparr>g_TaskListHead = [\<lparr>pTask = 7, Delay = 3, Period = 0, TaskID = 1\<rparr>,
                        \<lparr>pTask = 8, Delay = 4, Period = 10, TaskID = 2\<rparr>],
      g_CurrentTick = 20, g_NextTaskID = 3, g_ErrorCode = 0, executed = []\<rparr>"

text \<open>A queue holding one periodic task that is due.\<close>

definition periodic_due_state :: sched where
  "periodic_due_state =
     \<lparr>g_TaskListHead = [\<lparr>pTask = 7, Delay = 0, Period = 5, TaskID = 1\<rparr>],
      g_CurrentTick = 20, g_NextTaskID = 2, g_ErrorCode = 0, executed = []\<rparr>"

text \<open>The state after \<open>SCH_Init\<close>.\<close>

definition boot_state :: sched where
  "boot_state =
     \<lparr>g_TaskListHead = [], g_CurrentTick = 0, g_NextTaskID = 1, g_ErrorCode = 0, executed = []\<rparr>"

text \<open>Registering a one-shot task and deleting it again by the id returned.\<close>

definition add_then_delete :: "sched \<Rightarrow> sched" where
  "add_then_delete s =
     (let (s1, tid) = SCH_Add_Task 7 0 0 True s in fst (SCH_Delete_Task tid s1))"

text \<open>
  A queue with two due tasks, the first periodic and the second one-shot, and a task
  due in 7 ticks.
\<close>

definition dispatch_demo_state :: sched where
  "dispatch_demo_state =
     \<lparr>g_TaskListHead = [\<lparr>pTask = 7, Delay = 0, Period = 5, TaskID = 1\<rparr>,
                        \<lparr>pTask = 8, Delay = 0, Period = 0, TaskID = 2\<rparr>,
                        \<lparr>pTask = 9, Delay = 7, Period = 0, TaskID = 3\<rparr>],
      g_CurrentTick = 20, g_NextTaskID = 4, g_ErrorCode = 0, executed = []\<rparr>"

text \<open>
  A queue in which a due one-shot task and a pending task carry the same id. It is
  reached from the initial state by registering a task with delay 4 (id 1), then
  \<open>2^32 - 1\<close> times registering and deleting a task, which takes the id counter round
  to 1 again, and then registering a task with delay 0 (\<open>dup_id_reachable\<close> below).
\<close>

definition dup_id_state :: sched where
  "dup_id_state =
     \<lparr>g_TaskListHead = [\<lparr>pTask = 8, Delay = 0, Period = 0, TaskID = 1\<rparr>,
                        \<lparr>pTask = 7, Delay = 4, Period = 0, TaskID = 1\<rparr>],
      g_CurrentTick = 0, g_NextTaskID = 2, g_ErrorCode = 0, executed = []\<rparr>"

text \<open>
  Two runs from the initial state. In the first a tick arrives while the head is still
  counting down; in the second the head is already due when the tick arrives.
\<close>

definition sample_trace :: "op list" where
  "sample_trace = [AddTask 7 3 0 True, AddTask 8 7 10 True, Tick, DeleteTask 1]"

definition overdue_trace :: "op list" where
  "overdue_trace = [AddTask 7 0 0 True, AddTask 8 5 0 True, Tick]"

section \<open>Lemmas on cumulative delays and the insertion point\<close>

lemma total_delay_simps [simp]:
  "total_delay [] = 0"
  "total_delay (n # ns) = unat (Delay n) + total_delay ns"
  "total_delay (xs @ ys) = total_delay xs + total_delay ys"
  by (simp_all add: total_delay_def)

lemma length_cums [simp]: "length (cums a q) = length q"
  by (induction q arbitrary: a) auto

lemma cums_nth: "i < length q \<Longrightarrow> cums a q ! i = a + total_delay (take (Suc i) q)"
proof (induction q arbitrary: a i)
  case Nil
  then show ?case by simp
next
  case (Cons n ns)
  then show ?case by (cases i) auto
qed

lemma cums_eq_map: "cums a q = map (\<lambda>i. a + cum_delay q i) [0..<length q]"
  by (rule nth_equalityI) (simp_all add: cums_nth cum_delay_def)

lemma first_above_cums:
  "first_above DELAY q = length (takeWhile (\<lambda>c. c \<le> unat DELAY) (cums 0 q))"
  by (simp add: first_above_def cums_eq_map takeWhile_map comp_def)


lemma insert_after_char:
  assumes "unat acc + total_delay ns < 2 ^ 32"
  shows "insert_after newTask DELAY acc ns =
     (let k = length (takeWhile (\<lambda>c. c \<le> unat DELAY) (cums (unat acc) ns));
          d = DELAY - of_nat (unat acc + total_delay (take k ns))
      in take k ns @ newTask\<lparr>Delay := d\<rparr> # donate d (drop k ns))"
  using assms
proof (induction ns arbitrary: acc)
  case Nil
  then show ?case by (simp add: donate_def)
next
  case (Cons n ns)
  have s: "unat (acc + Delay n) = unat acc + unat (Delay n)"
    using Cons.prems by (simp add: unat_add_lem [THEN iffD1])
  show ?case
  proof (cases "acc + Delay n \<le> DELAY")
    case True
    then have le: "unat acc + unat (Delay n) \<le> unat DELAY"
      using s by (simp add: word_le_nat_alt)
    have "unat (acc + Delay n) + total_delay ns < 2 ^ 32"
      using Cons.prems s by simp
    from Cons.IH [OF this] True le show ?thesis
      by (simp add: s Let_def add.assoc)
  next
    case False
    then have "\<not> unat acc + unat (Delay n) \<le> unat DELAY"
      using s by (simp add: word_le_nat_alt)
    with False show ?thesis
      by (simp add: donate_def Let_def)
  qed
qed

lemma insert_task_char:
  assumes "total_delay q < 2 ^ 32"
  shows "insert_task newTask DELAY q =
     (let k = first_above DELAY q;
          d = DELAY - of_nat (total_delay (take k q))
      in take k q @ newTask\<lparr>Delay := d\<rparr> # donate d (drop k q))"
proof (cases q)
  case Nil
  then show ?thesis by (simp add: insert_task_def first_above_def donate_def)
next
  case (Cons h t)
  show ?thesis
  proof (cases "DELAY < Delay h")
    case True
    then have "\<not> unat (Delay h) \<le> unat DELAY" by (simp add: word_less_nat_alt)
    with True Cons show ?thesis
      by (simp add: insert_task_def first_above_cums donate_def Let_def)
  next
    case False
    then have le: "unat (Delay h) \<le> unat DELAY" by (simp add: word_less_nat_alt)
    have "unat (Delay h) + total_delay t < 2 ^ 32" using assms Cons by simp
    from insert_after_char [OF this] False le Cons show ?thesis
      by (simp add: insert_task_def first_above_cums Let_def)
  qed
qed

lemma cum_delay_mono: "i \<le> j \<Longrightarrow> cum_delay q i \<le> cum_delay q j"
proof -
  assume "i \<le> j"
  then obtain m where j: "Suc j = Suc i + m" by (metis add_Suc le_Suc_ex)
  show ?thesis unfolding cum_delay_def j take_add by simp
qed

lemma first_above_le: "first_above DELAY q \<le> length q"
  using length_takeWhile_le [of "\<lambda>i. cum_delay q i \<le> unat DELAY" "[0..<length q]"]
  by (simp add: first_above_def)

lemma first_above_before:
  assumes "i < first_above DELAY q"
  shows "cum_delay q i \<le> unat DELAY"
proof -
  let ?P = "\<lambda>i. cum_delay q i \<le> unat DELAY"
  have l: "i < length (takeWhile ?P [0..<length q])"
    using assms by (simp add: first_above_def)
  then have "takeWhile ?P [0..<length q] ! i \<in> set (takeWhile ?P [0..<length q])"
    by (rule nth_mem)
  then have "?P (takeWhile ?P [0..<length q] ! i)" by (rule set_takeWhileD [THEN conjunct2])
  moreover have "takeWhile ?P [0..<length q] ! i = [0..<length q] ! i"
    using l by (rule takeWhile_nth)
  moreover have "i < length q" using assms first_above_le [of DELAY q] by simp
  ultimately show ?thesis by simp
qed

lemma first_above_at:
  assumes "first_above DELAY q < length q"
  shows "unat DELAY < cum_delay q (first_above DELAY q)"
proof -
  let ?P = "\<lambda>i. cum_delay q i \<le> unat DELAY"
  have "length (takeWhile ?P [0..<length q]) < length [0..<length q]"
    using assms by (simp add: first_above_def)
  then have "\<not> ?P ([0..<length q] ! length (takeWhile ?P [0..<length q]))"
    by (rule nth_length_takeWhile)
  then show ?thesis using assms by (simp add: first_above_def)
qed

lemma first_above_after:
  assumes "first_above DELAY q \<le> i" "i < length q"
  shows "unat DELAY < cum_delay q i"
proof -
  have "first_above DELAY q < length q" using assms by simp
  then have "unat DELAY < cum_delay q (first_above DELAY q)" by (rule first_above_at)
  also have "\<dots> \<le> cum_delay q i" using assms(1) by (rule cum_delay_mono)
  finally show ?thesis .
qed

lemma total_take_first_above: "total_delay (take (first_above DELAY q) q) \<le> unat DELAY"
proof (cases "first_above DELAY q")
  case 0
  then show ?thesis by simp
next
  case (Suc j)
  then have "j < first_above DELAY q" by simp
  then have "cum_delay q j \<le> unat DELAY" by (rule first_above_before)
  then show ?thesis by (simp add: cum_delay_def Suc)
qed

lemma unat_slack:
  assumes "t \<le> unat (DELAY :: u32)"
  shows "unat (DELAY - of_nat t) = unat DELAY - t"
proof -
  have "t < 2 ^ 32" using assms unsigned_less [of DELAY, where 'a = nat] by simp
  then have u: "unat (of_nat t :: u32) = t" by (simp add: unat_of_nat)
  then have "(of_nat t :: u32) \<le> DELAY" using assms by (simp add: word_le_nat_alt)
  then show ?thesis using u by (simp add: unat_sub)
qed

section \<open>Lemmas on insertion, deletion and the tick\<close>

lemma walk_length_le: "walk_length DELAY acc ns \<le> length ns"
  by (induction ns arbitrary: acc) auto

lemma link_index_le: "link_index DELAY q \<le> length q"
  by (cases q) (auto simp: link_index_def walk_length_le)

lemma ids_insert_after:
  "map TaskID (insert_after newTask DELAY acc ns) =
     take (walk_length DELAY acc ns) (map TaskID ns) @ TaskID newTask #
     drop (walk_length DELAY acc ns) (map TaskID ns)"
  by (induction ns arbitrary: acc) auto

lemma ids_insert_task:
  "map TaskID (insert_task newTask DELAY q) =
     take (link_index DELAY q) (map TaskID q) @ TaskID newTask #
     drop (link_index DELAY q) (map TaskID q)"
  by (cases q) (auto simp: insert_task_def link_index_def ids_insert_after)

lemma cums_shift: "cums (a + b) q = map (\<lambda>c. c + b) (cums a q)"
proof (induction q arbitrary: a)
  case Nil
  then show ?case by simp
next
  case (Cons n ns)
  have e: "a + b + unat (Delay n) = a + unat (Delay n) + b" by simp
  show ?case unfolding cums.simps list.map e Cons.IH ..
qed

lemma cums_insert_after:
  assumes "unat acc + total_delay ns < 2 ^ 32" and "acc \<le> DELAY"
  shows "cums (unat acc) (insert_after newTask DELAY acc ns) =
     take (walk_length DELAY acc ns) (cums (unat acc) ns) @ unat DELAY #
     drop (walk_length DELAY acc ns) (cums (unat acc) ns)"
  using assms
proof (induction ns arbitrary: acc)
  case Nil
  then show ?case by (simp add: unat_sub word_le_nat_alt)
next
  case (Cons n ns)
  have s: "unat (acc + Delay n) = unat acc + unat (Delay n)"
    using Cons.prems(1) by (simp add: unat_add_lem [THEN iffD1])
  have a: "unat acc \<le> unat DELAY" using Cons.prems(2) by (simp add: word_le_nat_alt)
  show ?case
  proof (cases "acc + Delay n \<le> DELAY")
    case True
    have "unat (acc + Delay n) + total_delay ns < 2 ^ 32"
      using Cons.prems(1) s by simp
    from Cons.IH [OF this True] True show ?thesis
      by (simp add: s)
  next
    case False
    then have gt: "unat DELAY < unat acc + unat (Delay n)"
      using s by (simp add: word_le_nat_alt)
    have d: "unat (DELAY - acc) = unat DELAY - unat acc"
      using Cons.prems(2) by (simp add: unat_sub)
    have "DELAY - acc \<le> Delay n"
      using gt a d by (simp add: word_le_nat_alt)
    then have e: "unat (Delay n - (DELAY - acc)) = unat (Delay n) - (unat DELAY - unat acc)"
      using d by (simp add: unat_sub)
    have f: "unat DELAY + (unat (Delay n) - (unat DELAY - unat acc)) = unat acc + unat (Delay n)"
      using gt a by simp
    from False show ?thesis
      using a gt by (simp add: d e add.commute)
  qed
qed

lemma cums_insert_task:
  assumes "total_delay q < 2 ^ 32"
  shows "cums 0 (insert_task newTask DELAY q) =
     take (link_index DELAY q) (cums 0 q) @ unat DELAY # drop (link_index DELAY q) (cums 0 q)"
proof (cases q)
  case Nil
  then show ?thesis by (simp add: insert_task_def link_index_def)
next
  case (Cons h t)
  show ?thesis
  proof (cases "DELAY < Delay h")
    case True
    then have "unat (Delay h - DELAY) = unat (Delay h) - unat DELAY"
      by (simp add: unat_sub)
    moreover have "unat DELAY < unat (Delay h)" using True by (simp add: word_less_nat_alt)
    ultimately show ?thesis using True Cons
      by (simp add: insert_task_def link_index_def)
  next
    case False
    then have le: "Delay h \<le> DELAY" by simp
    have "unat (Delay h) + total_delay t < 2 ^ 32" using assms Cons by simp
    from cums_insert_after [OF this le] False Cons show ?thesis
      by (simp add: insert_task_def link_index_def)
  qed
qed

lemma delete_scan_found:
  "delete_scan taskID q = Some q' \<Longrightarrow> scan_length taskID q < length q"
  by (induction q arbitrary: q') (auto simp: scan_length_def split: if_splits)

lemma delete_scan_missing:
  "delete_scan taskID q = None \<Longrightarrow> scan_length taskID q = length q"
  by (induction q) (auto simp: scan_length_def split: if_splits)

lemma ids_delete_scan:
  assumes "delete_scan taskID q = Some q'"
  shows "map TaskID q' = take (scan_length taskID q) (map TaskID q) @
                         drop (Suc (scan_length taskID q)) (map TaskID q)"
  using assms
proof (induction q arbitrary: q')
  case Nil
  then show ?case by simp
next
  case (Cons c rest)
  show ?case
  proof (cases "TaskID c = taskID")
    case True
    with Cons.prems show ?thesis
      by (cases rest) (auto simp: scan_length_def)
  next
    case False
    with Cons.prems obtain r where r: "delete_scan taskID rest = Some r" "q' = c # r"
      by auto
    from Cons.IH [OF r(1)] False r(2) show ?thesis
      by (simp add: scan_length_def)
  qed
qed

lemma cums_delete_scan:
  assumes "delete_scan taskID q = Some q'" and "a + total_delay q < 2 ^ 32"
  shows "cums a q' = take (scan_length taskID q) (cums a q) @
                     drop (Suc (scan_length taskID q)) (cums a q)"
  using assms
proof (induction q arbitrary: q' a)
  case Nil
  then show ?case by simp
next
  case (Cons c rest)
  show ?case
  proof (cases "TaskID c = taskID")
    case True
    show ?thesis
    proof (cases rest)
      case Nil
      with True Cons.prems show ?thesis by (auto simp: scan_length_def)
    next
      case (Cons n ns)
      have "unat (Delay n) + unat (Delay c) < 2 ^ 32"
        using Cons.prems(2) Cons by simp
      then have "unat (Delay n + Delay c) = unat (Delay n) + unat (Delay c)"
        by (simp add: unat_add_lem [THEN iffD1])
      then have "a + unat (Delay n + Delay c) = a + unat (Delay c) + unat (Delay n)"
        by simp
      with True Cons Cons.prems(1) show ?thesis
        by (auto simp: scan_length_def add.assoc)
    qed
  next
    case False
    with Cons.prems(1) obtain r where r: "delete_scan taskID rest = Some r" "q' = c # r"
      by auto
    have "a + unat (Delay c) + total_delay rest < 2 ^ 32" using Cons.prems(2) by simp
    from Cons.IH [OF r(1) this] False r(2) show ?thesis
      by (simp add: scan_length_def)
  qed
qed

lemma cums_tick:
  assumes "0 < Delay h"
  shows "cums 0 (h\<lparr>Delay := Delay h - 1\<rparr> # t) = map (\<lambda>c. c - 1) (cums 0 (h # t))"
proof -
  have p: "0 < unat (Delay h)" using assms by (simp add: word_less_nat_alt)
  have u: "unat (Delay h - 1) = unat (Delay h) - 1"
    using assms by (simp add: unat_minus_one word_gt_0)
  have "cums (unat (Delay h) - 1 + 1) t = map (\<lambda>c. c + 1) (cums (unat (Delay h) - 1) t)"
    by (rule cums_shift)
  moreover have "unat (Delay h) - 1 + 1 = unat (Delay h)" using p by simp
  ultimately have "cums (unat (Delay h)) t = map (\<lambda>c. c + 1) (cums (unat (Delay h) - 1) t)"
    by metis
  then have "map (\<lambda>c. c - 1) (cums (unat (Delay h)) t) = cums (unat (Delay h) - 1) t"
    by (simp add: comp_def)
  then show ?thesis by (simp add: u)
qed

lemma cums_ge: "c \<in> set (cums a q) \<Longrightarrow> a \<le> c"
proof (induction q arbitrary: a)
  case Nil
  then show ?case by simp
next
  case (Cons n ns)
  from Cons.prems have "c = a + unat (Delay n) \<or> c \<in> set (cums (a + unat (Delay n)) ns)"
    by simp
  then show ?case
  proof
    assume "c = a + unat (Delay n)"
    then show ?thesis by simp
  next
    assume "c \<in> set (cums (a + unat (Delay n)) ns)"
    then have "a + unat (Delay n) \<le> c" by (rule Cons.IH)
    then show ?thesis by simp
  qed
qed

lemma last_cums: "q \<noteq> [] \<Longrightarrow> last (cums a q) = a + total_delay q"
proof (induction q arbitrary: a)
  case Nil
  then show ?case by simp
next
  case (Cons n ns)
  show ?case
  proof (cases "ns = []")
    case True
    then show ?thesis by simp
  next
    case False
    then have "cums (a + unat (Delay n)) ns \<noteq> []"
      by (metis length_cums length_0_conv)
    moreover have "last (cums (a + unat (Delay n)) ns) = a + unat (Delay n) + total_delay ns"
      using False by (rule Cons.IH)
    ultimately show ?thesis by simp
  qed
qed

lemma tracked_total:
  assumes "tracked s g"
  shows "total_delay (g_TaskListHead s) < 2 ^ 32"
proof (cases "g_TaskListHead s = []")
  case True
  then show ?thesis by simp
next
  case False
  have l: "length g = length (g_TaskListHead s)"
    using assms by (metis tracked_def length_map)
  with False have ne: "g \<noteq> []" by auto
  have "total_delay (g_TaskListHead s) = last (cums 0 (g_TaskListHead s))"
    using False by (simp add: last_cums)
  also have "\<dots> = requested (last g) - counted (last g)"
    using assms ne by (simp add: tracked_def last_map)
  also have "\<dots> \<le> requested (last g)" by simp
  also have "\<dots> < 2 ^ 32" using assms ne by (simp add: tracked_def)
  finally show ?thesis .
qed

lemma tracked_add:
  assumes "tracked s g"
  shows "tracked (exec (AddTask pFunction DELAY PERIOD malloc_ok) s)
                 (track (AddTask pFunction DELAY PERIOD malloc_ok) s g)"
proof (cases "pFunction = NULL \<or> \<not> malloc_ok")
  case True
  with assms show ?thesis by (auto simp: tracked_def SCH_Add_Task_def)
next
  case False
  let ?q = "g_TaskListHead s"
  let ?k = "link_index DELAY ?q"
  let ?new = "\<lparr>pTask = pFunction, Delay = 0, Period = PERIOD, TaskID = g_NextTaskID s\<rparr>"
  let ?r = "\<lparr>reg_id = g_NextTaskID s, requested = unat DELAY, elapsed = 0, counted = 0\<rparr>"
  have q': "g_TaskListHead (exec (AddTask pFunction DELAY PERIOD malloc_ok) s) =
        insert_task ?new DELAY ?q"
    using False by (simp add: SCH_Add_Task_def Let_def)
  have g': "track (AddTask pFunction DELAY PERIOD malloc_ok) s g = take ?k g @ ?r # drop ?k g"
    using False by simp
  have ceq: "cums 0 ?q = map (\<lambda>r. requested r - counted r) g"
    and ieq: "map TaskID ?q = map reg_id g"
    using assms by (simp_all add: tracked_def)
  have c: "cums 0 (insert_task ?new DELAY ?q) =
        map (\<lambda>r. requested r - counted r) (take ?k g @ ?r # drop ?k g)"
    using cums_insert_task [OF tracked_total [OF assms], of ?new DELAY]
    unfolding ceq by (simp add: take_map drop_map)
  have i: "map TaskID (insert_task ?new DELAY ?q) = map reg_id (take ?k g @ ?r # drop ?k g)"
    using ids_insert_task [of ?new DELAY ?q]
    unfolding ieq by (simp add: take_map drop_map)
  have "unat DELAY < 2 ^ 32" using unsigned_less [of DELAY, where 'a = nat] by simp
  then have b: "\<forall>r \<in> set (take ?k g @ ?r # drop ?k g).
        counted r \<le> requested r \<and> requested r < 2 ^ 32 \<and>
        counted r \<le> elapsed r"
    using assms by (auto simp: tracked_def dest: in_set_takeD in_set_dropD)
  from c i b show ?thesis
    unfolding tracked_def q' g' by simp
qed

lemma tracked_delete:
  assumes "tracked s g"
  shows "tracked (exec (DeleteTask taskID) s) (track (DeleteTask taskID) s g)"
proof -
  let ?q = "g_TaskListHead s"
  let ?k = "scan_length taskID ?q"
  have l: "length g = length ?q"
    using assms by (metis tracked_def length_map)
  have ceq: "cums 0 ?q = map (\<lambda>r. requested r - counted r) g"
    and ieq: "map TaskID ?q = map reg_id g"
    using assms by (simp_all add: tracked_def)
  show ?thesis
  proof (cases "delete_scan taskID ?q")
    case None
    then have "?k = length ?q" by (rule delete_scan_missing)
    then have "track (DeleteTask taskID) s g = g" using l by simp
    moreover have "g_TaskListHead (exec (DeleteTask taskID) s) = ?q"
      using None by (simp add: SCH_Delete_Task_def)
    ultimately show ?thesis using assms by (simp add: tracked_def)
  next
    case (Some q')
    then have ne: "?q \<noteq> []" by auto
    have q': "g_TaskListHead (exec (DeleteTask taskID) s) = q'"
      using Some ne by (simp add: SCH_Delete_Task_def)
    have "0 + total_delay ?q < 2 ^ 32" using tracked_total [OF assms] by simp
    from cums_delete_scan [OF Some this]
    have c: "cums 0 q' = map (\<lambda>r. requested r - counted r) (take ?k g @ drop (Suc ?k) g)"
      unfolding ceq by (simp add: take_map drop_map)
    from ids_delete_scan [OF Some]
    have i: "map TaskID q' = map reg_id (take ?k g @ drop (Suc ?k) g)"
      unfolding ieq by (simp add: take_map drop_map)
    have b: "\<forall>r \<in> set (take ?k g @ drop (Suc ?k) g).
        counted r \<le> requested r \<and> requested r < 2 ^ 32 \<and>
        counted r \<le> elapsed r"
      using assms by (auto simp: tracked_def dest: in_set_takeD in_set_dropD)
    from c i b show ?thesis unfolding tracked_def q' by simp
  qed
qed

lemma tracked_tick:
  assumes "tracked s g"
  shows "tracked (exec Tick s) (track Tick s g)"
proof (cases "head_positive s")
  case False
  then have "g_TaskListHead (SCH_Update s) = g_TaskListHead s"
    by (simp add: SCH_Update_def head_positive_def Let_def split: list.splits)
  with False assms show ?thesis
    by (force simp: tracked_def comp_def)
next
  case True
  then obtain h t where q: "g_TaskListHead s = h # t" and p: "0 < Delay h"
    by (auto simp: head_positive_def split: list.splits)
  have q': "g_TaskListHead (SCH_Update s) = h\<lparr>Delay := Delay h - 1\<rparr> # t"
    using q p by (simp add: SCH_Update_def Let_def)
  have pos: "0 < unat (Delay h)" using p by (simp add: word_less_nat_alt)
  have ge: "\<forall>r \<in> set g. 1 \<le> requested r - counted r"
  proof
    fix r assume "r \<in> set g"
    then have "requested r - counted r \<in> set (cums 0 (h # t))"
      using assms q by (simp add: tracked_def)
    then have "requested r - counted r = unat (Delay h) \<or>
               requested r - counted r \<in> set (cums (unat (Delay h)) t)"
      by simp
    then have "unat (Delay h) \<le> requested r - counted r"
      using cums_ge [of "requested r - counted r" "unat (Delay h)" t] by auto
    then show "1 \<le> requested r - counted r" using pos by simp
  qed
  have c: "cums 0 (h\<lparr>Delay := Delay h - 1\<rparr> # t) =
        map (\<lambda>r. requested r - counted r) (track Tick s g)"
    using assms q True unfolding cums_tick [OF p]
    by (simp add: tracked_def comp_def)
  have i: "map TaskID (h\<lparr>Delay := Delay h - 1\<rparr> # t) = map reg_id (track Tick s g)"
    using assms q by (simp add: tracked_def comp_def)
  have b: "\<forall>r \<in> set (track Tick s g). counted r \<le> requested r \<and> requested r < 2 ^ 32 \<and>
        counted r \<le> elapsed r"
    using assms ge True by (fastforce simp: tracked_def)
  from c i b show ?thesis unfolding tracked_def exec.simps q' by simp
qed

lemma tracked_step: "tracked s g \<Longrightarrow> tracked (exec x s) (track x s g)"
  by (cases x) (simp_all only: tracked_add tracked_delete tracked_tick)

lemma tracked_run:
  "tracked (fst sg) (snd sg) \<Longrightarrow> tracked (fst (run ops sg)) (snd (run ops sg))"
  by (induction ops arbitrary: sg) (simp_all add: tracked_step)

lemma tracked_init: "tracked (SCH_Init s) []"
proof -
  have "free_all q = []" for q by (induction q) simp_all
  then show ?thesis by (simp add: tracked_def SCH_Init_def)
qed

section \<open>Lemmas on deletion and dispatch\<close>

lemma delete_scan_absent:
  "taskID \<notin> TaskID ` set q \<Longrightarrow> delete_scan taskID q = None"
  by (induction q) auto

lemma insert_after_zero: "insert_after newTask DELAY 0 q = insert_task newTask DELAY q"
  by (cases q) (auto simp: insert_task_def not_le)

lemma insert_after_past_due:
  "\<forall>z \<in> set zs. Delay z = 0 \<Longrightarrow>
     insert_after newTask DELAY 0 (zs @ rest) = zs @ insert_task newTask DELAY rest"
  by (induction zs) (simp_all add: insert_after_zero)

lemma insert_task_past_due:
  assumes "\<forall>z \<in> set zs. Delay z = 0" and "DELAY \<noteq> 0"
  shows "insert_task newTask DELAY (zs @ rest) = zs @ insert_task newTask DELAY rest"
proof (cases zs)
  case Nil
  then show ?thesis by simp
next
  case (Cons z zs')
  with assms have z: "Delay z = 0" and r: "\<forall>z \<in> set zs'. Delay z = 0" by simp_all
  have "\<not> DELAY < 0" by simp
  then show ?thesis
    using Cons z insert_after_past_due [OF r, of newTask DELAY rest]
    by (simp add: insert_task_def)
qed

lemma insert_task_head:
  assumes "DELAY \<noteq> 0" and "rest = [] \<or> Delay (hd rest) \<noteq> 0"
  shows "insert_task newTask DELAY rest \<noteq> [] \<and> Delay (hd (insert_task newTask DELAY rest)) \<noteq> 0"
  using assms by (cases rest) (auto simp: insert_task_def)

lemma dispatch_one_queue:
  assumes "g_TaskListHead s = z # q"
  shows "g_TaskListHead (dispatch_one ok s) =
     (if 0 < Period z \<and> ok then insert_task (rescheduled_node z) (Period z) q else q)"
  using assms by (simp add: dispatch_one_def Let_def rescheduled_node_def)

lemma dispatch_loop_queue:
  assumes "\<forall>z \<in> set zs. Delay z = 0" and "rest = [] \<or> Delay (hd rest) \<noteq> 0"
    and "g_TaskListHead s = zs @ rest"
  shows "g_TaskListHead (SCH_Dispatch_loop malloc_ok k s) = requeue malloc_ok k zs rest"
  using assms
proof (induction zs arbitrary: s k rest)
  case Nil
  then have "\<not> head_due s" by (cases rest) (auto simp: head_due_def)
  then show ?case using Nil by (subst SCH_Dispatch_loop.simps) simp
next
  case (Cons z zs)
  let ?rest = "if 0 < Period z \<and> malloc_ok k
               then insert_task (rescheduled_node z) (Period z) rest else rest"
  have due: "head_due s" using Cons.prems by (simp add: head_due_def)
  have zs0: "\<forall>z \<in> set zs. Delay z = 0" using Cons.prems(1) by simp
  have q1: "g_TaskListHead (dispatch_one (malloc_ok k) s) = zs @ ?rest"
    using dispatch_one_queue [of s z "zs @ rest" "malloc_ok k"] Cons.prems(3)
      insert_task_past_due [OF zs0, of "Period z" "rescheduled_node z" rest]
    by (auto simp: word_gt_0)
  have r1: "?rest = [] \<or> Delay (hd ?rest) \<noteq> 0"
    using Cons.prems(2) insert_task_head [of "Period z" rest "rescheduled_node z"]
    by (auto simp: word_gt_0)
  have "g_TaskListHead (SCH_Dispatch_loop malloc_ok (Suc k) (dispatch_one (malloc_ok k) s)) =
        requeue malloc_ok (Suc k) zs ?rest"
    using zs0 r1 q1 by (rule Cons.IH)
  then show ?case using due by (subst SCH_Dispatch_loop.simps) simp
qed

lemma key_insert_after:
  "map key (insert_after newTask DELAY acc ns) =
     take (walk_length DELAY acc ns) (map key ns) @ key newTask #
     drop (walk_length DELAY acc ns) (map key ns)"
  by (induction ns arbitrary: acc) (auto simp: key_def)

lemma key_insert_task:
  "map key (insert_task newTask DELAY q) =
     take (link_index DELAY q) (map key q) @ key newTask # drop (link_index DELAY q) (map key q)"
  by (cases q) (auto simp: insert_task_def link_index_def key_insert_after, auto simp: key_def)

lemma set_take_drop: "set (take k xs) \<union> set (drop k xs) = set xs"
  by (metis append_take_drop_id set_append)

lemma entries_insert_task:
  assumes "total_delay q < 2 ^ 32"
  shows "set (entries (insert_task newTask DELAY q)) =
         insert (key newTask, unat DELAY) (set (entries q))"
proof -
  let ?k = "link_index DELAY q"
  have "entries (insert_task newTask DELAY q) =
        zip (take ?k (map key q) @ key newTask # drop ?k (map key q))
            (take ?k (cums 0 q) @ unat DELAY # drop ?k (cums 0 q))"
    by (simp only: entries_def key_insert_task cums_insert_task [OF assms])
  also have "\<dots> = take ?k (entries q) @ (key newTask, unat DELAY) # drop ?k (entries q)"
    by (simp add: entries_def take_zip drop_zip)
  finally show ?thesis by (simp add: set_take_drop)
qed

lemma total_delay_last: "total_delay q = (if q = [] then 0 else last (cums 0 q))"
  by (simp add: last_cums)

lemma total_delay_insert_task:
  assumes "total_delay q < 2 ^ 32"
  shows "total_delay (insert_task newTask DELAY q) < 2 ^ 32"
proof -
  let ?k = "link_index DELAY q"
  let ?q' = "insert_task newTask DELAY q"
  have ne: "?q' \<noteq> []" by (cases q) (simp_all add: insert_task_def)
  have d: "unat DELAY < 2 ^ 32" using unsigned_less [of DELAY, where 'a = nat] by simp
  have "total_delay ?q' = last (take ?k (cums 0 q) @ unat DELAY # drop ?k (cums 0 q))"
    using ne by (simp add: total_delay_last cums_insert_task [OF assms])
  also have "\<dots> = (if drop ?k (cums 0 q) = [] then unat DELAY else last (cums 0 q))"
    by simp
  also have "\<dots> < 2 ^ 32"
  proof (cases "drop ?k (cums 0 q) = []")
    case True
    then show ?thesis using d by simp
  next
    case False
    then have "q \<noteq> []" by auto
    then show ?thesis using False assms by (simp add: total_delay_last)
  qed
  finally show ?thesis .
qed


lemma no_wrap_insert_task: "no_wrap q \<Longrightarrow> no_wrap (insert_task newTask DELAY q)"
  unfolding no_wrap_def by (rule total_delay_insert_task)

lemma key_rescheduled [simp]: "key (rescheduled_node z) = key z"
  by (simp add: key_def rescheduled_node_def)

lemma requeue_total:
  "no_wrap rest \<Longrightarrow> no_wrap (requeue malloc_ok k zs rest)"
  by (induction zs arbitrary: k rest) (simp_all add: no_wrap_insert_task)

lemma requeue_keeps:
  "no_wrap rest \<Longrightarrow>
     set (entries rest) \<subseteq> set (entries (requeue malloc_ok k zs rest))"
proof (induction zs arbitrary: k rest)
  case Nil
  then show ?case by simp
next
  case (Cons z zs)
  let ?rest = "if 0 < Period z \<and> malloc_ok k
               then insert_task (rescheduled_node z) (Period z) rest else rest"
  have t: "no_wrap ?rest"
    using Cons.prems by (simp add: no_wrap_insert_task)
  have "set (entries rest) \<subseteq> set (entries ?rest)"
    using Cons.prems by (auto simp: entries_insert_task no_wrap_def)
  also have "\<dots> \<subseteq> set (entries (requeue malloc_ok (Suc k) zs ?rest))"
    using t by (rule Cons.IH)
  finally show ?case by simp
qed

lemma requeue_periodic:
  assumes "j < length zs" and "0 < Period (zs ! j)" and "malloc_ok (k + j)"
    and "no_wrap rest"
  shows "(key (zs ! j), unat (Period (zs ! j))) \<in> set (entries (requeue malloc_ok k zs rest))"
  using assms
proof (induction zs arbitrary: k rest j)
  case Nil
  then show ?case by simp
next
  case (Cons z zs)
  let ?rest = "if 0 < Period z \<and> malloc_ok k
               then insert_task (rescheduled_node z) (Period z) rest else rest"
  have t: "no_wrap ?rest"
    using Cons.prems(4) by (simp add: no_wrap_insert_task)
  show ?case
  proof (cases j)
    case 0
    with Cons.prems have "(key z, unat (Period z)) \<in> set (entries ?rest)"
      by (simp add: entries_insert_task no_wrap_def)
    then have "(key z, unat (Period z)) \<in> set (entries (requeue malloc_ok (Suc k) zs ?rest))"
      using requeue_keeps [OF t] by blast
    with 0 show ?thesis by simp
  next
    case (Suc i)
    with Cons.prems have "i < length zs" "0 < Period (zs ! i)" "malloc_ok (Suc k + i)"
      by simp_all
    from Cons.IH [OF this t] Suc show ?thesis by simp
  qed
qed

lemma ids_set_insert_task:
  "TaskID ` set (insert_task newTask DELAY q) = insert (TaskID newTask) (TaskID ` set q)"
proof -
  have "set (map TaskID (insert_task newTask DELAY q)) =
        insert (TaskID newTask) (set (map TaskID q))"
    unfolding ids_insert_task by (simp add: set_take_drop)
  then show ?thesis by simp
qed

lemma requeue_ids:
  "TaskID ` set (requeue malloc_ok k zs rest) \<subseteq>
     TaskID ` set rest \<union> TaskID ` {z \<in> set zs. Period z \<noteq> 0}"
proof (induction zs arbitrary: k rest)
  case Nil
  then show ?case by simp
next
  case (Cons z zs)
  let ?rest = "if 0 < Period z \<and> malloc_ok k
               then insert_task (rescheduled_node z) (Period z) rest else rest"
  have "TaskID ` set ?rest \<subseteq> TaskID ` set rest \<union> TaskID ` {x \<in> {z}. Period x \<noteq> 0}"
    by (auto simp: ids_set_insert_task rescheduled_node_def word_gt_0)
  with Cons.IH [of "Suc k" ?rest] show ?case
    by (simp only: requeue.simps) (auto 0 3)
qed

lemma dispatch_one_executed:
  assumes "g_TaskListHead s = z # q"
  shows "executed (dispatch_one ok s) =
         executed s @ (if pTask z \<noteq> NULL then [pTask z] else [])"
  using assms by (simp add: dispatch_one_def Let_def)

lemma dispatch_loop_executed:
  assumes "\<forall>z \<in> set zs. Delay z = 0" and "rest = [] \<or> Delay (hd rest) \<noteq> 0"
    and "g_TaskListHead s = zs @ rest"
  shows "executed (SCH_Dispatch_loop malloc_ok k s) =
         executed s @ filter (\<lambda>f. f \<noteq> NULL) (map pTask zs)"
  using assms
proof (induction zs arbitrary: s k rest)
  case Nil
  then have "\<not> head_due s" by (cases rest) (auto simp: head_due_def)
  then show ?case by (subst SCH_Dispatch_loop.simps) simp
next
  case (Cons z zs)
  let ?rest = "if 0 < Period z \<and> malloc_ok k
               then insert_task (rescheduled_node z) (Period z) rest else rest"
  have due: "head_due s" using Cons.prems by (simp add: head_due_def)
  have zs0: "\<forall>z \<in> set zs. Delay z = 0" using Cons.prems(1) by simp
  have q1: "g_TaskListHead (dispatch_one (malloc_ok k) s) = zs @ ?rest"
    using dispatch_one_queue [of s z "zs @ rest" "malloc_ok k"] Cons.prems(3)
      insert_task_past_due [OF zs0, of "Period z" "rescheduled_node z" rest]
    by (auto simp: word_gt_0)
  have r1: "?rest = [] \<or> Delay (hd ?rest) \<noteq> 0"
    using Cons.prems(2) insert_task_head [of "Period z" rest "rescheduled_node z"]
    by (auto simp: word_gt_0)
  have "executed (SCH_Dispatch_loop malloc_ok (Suc k) (dispatch_one (malloc_ok k) s)) =
        executed (dispatch_one (malloc_ok k) s) @ filter (\<lambda>f. f \<noteq> NULL) (map pTask zs)"
    using zs0 r1 q1 by (rule Cons.IH)
  then show ?case
    using due dispatch_one_executed [of s z "zs @ rest" "malloc_ok k"] Cons.prems(3)
    by (subst SCH_Dispatch_loop.simps) simp
qed

lemma due_split:
  "\<forall>z \<in> set (takeWhile (\<lambda>n. Delay n = 0) q). Delay z = 0"
  "dropWhile (\<lambda>n. Delay n = 0) q = [] \<or> Delay (hd (dropWhile (\<lambda>n. Delay n = 0) q)) \<noteq> 0"
  "q = takeWhile (\<lambda>n. Delay n = 0) q @ dropWhile (\<lambda>n. Delay n = 0) q"
proof -
  show "\<forall>z \<in> set (takeWhile (\<lambda>n. Delay n = 0) q). Delay z = 0"
    by (auto dest: set_takeWhileD)
  show "dropWhile (\<lambda>n. Delay n = 0) q = [] \<or> Delay (hd (dropWhile (\<lambda>n. Delay n = 0) q)) \<noteq> 0"
    using hd_dropWhile [of "\<lambda>n. Delay n = 0" q] by blast
  show "q = takeWhile (\<lambda>n. Delay n = 0) q @ dropWhile (\<lambda>n. Delay n = 0) q"
    by simp
qed


lemma distinct_put_in:
  assumes "distinct xs" and "x \<notin> set xs"
  shows "distinct (take k xs @ x # drop k xs)"
proof -
  have "set (take k xs) \<inter> set (drop k xs) = {}"
    using assms(1) by (simp add: set_take_disj_set_drop_if_distinct)
  moreover have "x \<notin> set (take k xs)" "x \<notin> set (drop k xs)"
    using assms(2) by (auto dest: in_set_takeD in_set_dropD)
  ultimately show ?thesis using assms(1) by auto
qed

lemma requeue_distinct:
  "distinct (map TaskID zs @ map TaskID rest) \<Longrightarrow>
     distinct (map TaskID (requeue malloc_ok k zs rest))"
proof (induction zs arbitrary: k rest)
  case Nil
  then show ?case by simp
next
  case (Cons z zs)
  let ?rest = "if 0 < Period z \<and> malloc_ok k
               then insert_task (rescheduled_node z) (Period z) rest else rest"
  from Cons.prems have z: "TaskID z \<notin> set (map TaskID zs)" "TaskID z \<notin> set (map TaskID rest)"
    and d: "distinct (map TaskID zs)" "distinct (map TaskID rest)"
    and i: "set (map TaskID zs) \<inter> set (map TaskID rest) = {}"
    by auto
  have ids: "set (map TaskID ?rest) \<subseteq> insert (TaskID z) (set (map TaskID rest))"
    using ids_set_insert_task [of "rescheduled_node z" "Period z" rest]
    by (auto simp: rescheduled_node_def)
  have "distinct (map TaskID ?rest)"
    using d(2) z(2) distinct_put_in [of "map TaskID rest" "TaskID z"]
    by (simp add: ids_insert_task rescheduled_node_def)
  moreover have "set (map TaskID zs) \<inter> set (map TaskID ?rest) = {}"
    using ids i z(1) by blast
  ultimately have "distinct (map TaskID zs @ map TaskID ?rest)"
    using d(1) by simp
  then have "distinct (map TaskID (requeue malloc_ok (Suc k) zs ?rest))"
    by (rule Cons.IH)
  then show ?case by simp
qed

lemma length_insert_after:
  "length (insert_after newTask DELAY acc ns) = Suc (length ns)"
  by (induction ns arbitrary: acc) auto

lemma length_insert_task: "length (insert_task newTask DELAY q) = Suc (length q)"
  by (cases q) (auto simp: insert_task_def length_insert_after)

lemma length_requeue:
  "length (requeue malloc_ok k zs rest) =
     length rest + length (filter (\<lambda>i. Period (zs ! i) \<noteq> 0 \<and> malloc_ok (k + i)) [0..<length zs])"
proof (induction zs arbitrary: k rest)
  case Nil
  then show ?case by simp
next
  case (Cons z zs)
  have "[0..<length (z # zs)] = 0 # map Suc [0..<length zs]"
    by (simp add: upt_conv_Cons map_Suc_upt del: upt_Suc)
  then have "length (filter (\<lambda>i. Period ((z # zs) ! i) \<noteq> 0 \<and> malloc_ok (k + i)) [0..<length (z # zs)]) =
      (if Period z \<noteq> 0 \<and> malloc_ok k then 1 else 0) +
      length (filter (\<lambda>i. Period (zs ! i) \<noteq> 0 \<and> malloc_ok (Suc k + i)) [0..<length zs])"
    by (simp add: filter_map comp_def del: upt_Suc)
  then show ?case
    by (simp add: Cons.IH length_insert_task word_gt_0 del: upt_Suc)
qed

lemma keys_insert_task:
  "key ` set (insert_task newTask DELAY q) = insert (key newTask) (key ` set q)"
proof -
  have "set (map key (insert_task newTask DELAY q)) = insert (key newTask) (set (map key q))"
    unfolding key_insert_task by (simp add: set_take_drop)
  then show ?thesis by simp
qed

lemma requeue_keeps_keys:
  "key ` set rest \<subseteq> key ` set (requeue malloc_ok k zs rest)"
proof (induction zs arbitrary: k rest)
  case Nil
  then show ?case by simp
next
  case (Cons z zs)
  let ?rest = "if 0 < Period z \<and> malloc_ok k
               then insert_task (rescheduled_node z) (Period z) rest else rest"
  have "key ` set rest \<subseteq> key ` set ?rest"
    by (auto simp: keys_insert_task)
  also have "\<dots> \<subseteq> key ` set (requeue malloc_ok (Suc k) zs ?rest)"
    by (rule Cons.IH)
  finally show ?case by simp
qed

lemma requeue_has_key:
  assumes "j < length zs" and "0 < Period (zs ! j)" and "malloc_ok (k + j)"
  shows "key (zs ! j) \<in> key ` set (requeue malloc_ok k zs rest)"
  using assms
proof (induction zs arbitrary: k rest j)
  case Nil
  then show ?case by simp
next
  case (Cons z zs)
  let ?rest = "if 0 < Period z \<and> malloc_ok k
               then insert_task (rescheduled_node z) (Period z) rest else rest"
  show ?case
  proof (cases j)
    case 0
    with Cons.prems have "key z \<in> key ` set ?rest"
      by (simp add: keys_insert_task)
    then have "key z \<in> key ` set (requeue malloc_ok (Suc k) zs ?rest)"
      using requeue_keeps_keys [of ?rest malloc_ok "Suc k" zs] by blast
    with 0 show ?thesis by simp
  next
    case (Suc i)
    with Cons.prems have "i < length zs" "0 < Period (zs ! i)" "malloc_ok (Suc k + i)"
      by simp_all
    from Cons.IH [OF this] Suc show ?thesis by simp
  qed
qed

lemma dispatch_one_tick: "g_CurrentTick (dispatch_one ok s) = g_CurrentTick s"
  by (simp add: dispatch_one_def Let_def split: list.splits)

lemma dispatch_one_next_id: "g_NextTaskID (dispatch_one ok s) = g_NextTaskID s"
  by (simp add: dispatch_one_def Let_def split: list.splits)

lemma dispatch_loop_tick: "g_CurrentTick (SCH_Dispatch_loop malloc_ok k s) = g_CurrentTick s"
proof (induction malloc_ok k s rule: SCH_Dispatch_loop.induct)
  case (1 malloc_ok k s)
  show ?case
  proof (cases "head_due s")
    case True
    with "1" show ?thesis
      by (subst SCH_Dispatch_loop.simps) (simp add: dispatch_one_tick)
  next
    case False
    then show ?thesis by (subst SCH_Dispatch_loop.simps) simp
  qed
qed

lemma dispatch_loop_next_id: "g_NextTaskID (SCH_Dispatch_loop malloc_ok k s) = g_NextTaskID s"
proof (induction malloc_ok k s rule: SCH_Dispatch_loop.induct)
  case (1 malloc_ok k s)
  show ?case
  proof (cases "head_due s")
    case True
    with "1" show ?thesis
      by (subst SCH_Dispatch_loop.simps) (simp add: dispatch_one_next_id)
  next
    case False
    then show ?thesis by (subst SCH_Dispatch_loop.simps) simp
  qed
qed

lemma others_split:
  assumes "j < length q" and "x \<in> set q" and "x \<noteq> q ! j"
  shows "x \<in> set (take j q @ drop (Suc j) q)"
proof -
  have "set q = set (take j q @ q ! j # drop (Suc j) q)"
    using id_take_nth_drop [OF assms(1)] by (rule arg_cong)
  with assms(2) have "x \<in> set (take j q @ q ! j # drop (Suc j) q)" by blast
  with assms(3) show ?thesis by auto
qed

lemma dispatch_one_error: "g_ErrorCode (dispatch_one ok s) = g_ErrorCode s"
  by (simp add: dispatch_one_def Let_def split: list.splits)

lemma dispatch_loop_error: "g_ErrorCode (SCH_Dispatch_loop malloc_ok k s) = g_ErrorCode s"
proof (induction malloc_ok k s rule: SCH_Dispatch_loop.induct)
  case (1 malloc_ok k s)
  show ?case
  proof (cases "head_due s")
    case True
    with "1" show ?thesis
      by (subst SCH_Dispatch_loop.simps) (simp add: dispatch_one_error)
  next
    case False
    then show ?thesis by (subst SCH_Dispatch_loop.simps) simp
  qed
qed

section \<open>Lemmas on the id counter\<close>

lemma add_then_delete_empty:
  "g_TaskListHead s = [] \<Longrightarrow> add_then_delete s = s\<lparr>g_NextTaskID := g_NextTaskID s + 1\<rparr>"
  by (simp add: add_then_delete_def SCH_Add_Task_def SCH_Delete_Task_def NULL_def
      insert_task_def Let_def)

lemma churn_counter:
  "g_TaskListHead s = [] \<Longrightarrow>
     (add_then_delete ^^ n) s = s\<lparr>g_NextTaskID := g_NextTaskID s + of_nat n\<rparr>"
proof (induction n)
  case 0
  then show ?case by simp
next
  case (Suc n)
  then show ?case by (simp add: add_then_delete_empty add.assoc add.commute)
qed

lemma add_then_delete_behind:
  assumes "g_TaskListHead s = [n]" and "0 < Delay n" and "TaskID n \<noteq> g_NextTaskID s"
  shows "add_then_delete s = s\<lparr>g_NextTaskID := g_NextTaskID s + 1\<rparr>"
  using assms
  by (simp add: add_then_delete_def SCH_Add_Task_def SCH_Delete_Task_def NULL_def
      insert_task_def Let_def)

lemma churn_behind:
  assumes "g_TaskListHead s = [n]" and "0 < Delay n"
    and "\<forall>i<m. TaskID n \<noteq> g_NextTaskID s + of_nat i"
  shows "(add_then_delete ^^ m) s = s\<lparr>g_NextTaskID := g_NextTaskID s + of_nat m\<rparr>"
  using assms(3)
proof (induction m)
  case 0
  then show ?case by simp
next
  case (Suc m)
  then have ih: "(add_then_delete ^^ m) s = s\<lparr>g_NextTaskID := g_NextTaskID s + of_nat m\<rparr>"
    by simp
  have "TaskID n \<noteq> g_NextTaskID s + of_nat m" using Suc.prems by simp
  then have "add_then_delete (s\<lparr>g_NextTaskID := g_NextTaskID s + of_nat m\<rparr>) =
      s\<lparr>g_NextTaskID := g_NextTaskID s + of_nat m + 1\<rparr>"
    using add_then_delete_behind [of "s\<lparr>g_NextTaskID := g_NextTaskID s + of_nat m\<rparr>" n] assms(1,2)
    by simp
  then show ?case by (simp add: ih add.assoc add.commute)
qed

lemma no_early_wrap:
  assumes "i < 2 ^ 32 - 1"
  shows "(1::u32) \<noteq> 2 + of_nat i"
proof
  assume "(1::u32) = 2 + of_nat i"
  then have "(of_nat (Suc i) :: u32) = 0" by simp
  then have "2 ^ LENGTH(32) dvd Suc i" by (simp only: word_of_nat_eq_0_iff)
  then have "(2::nat) ^ 32 dvd Suc i" by simp
  then have "(2::nat) ^ 32 \<le> Suc i" by (rule dvd_imp_le) simp
  with assms show False by simp
qed

lemma dup_id_reachable:
  "fst (SCH_Add_Task 8 0 0 True
         ((add_then_delete ^^ (2 ^ 32 - 1)) (fst (SCH_Add_Task 7 4 0 True boot_state)))) =
   dup_id_state"
proof -
  let ?n = "\<lparr>pTask = 7, Delay = 4, Period = 0, TaskID = 1\<rparr>"
  let ?s = "boot_state\<lparr>g_TaskListHead := [?n], g_NextTaskID := 2\<rparr>"
  have a: "fst (SCH_Add_Task 7 4 0 True boot_state) = ?s"
    by (simp add: SCH_Add_Task_def NULL_def insert_task_def boot_state_def)
  have q: "g_TaskListHead ?s = [?n]" and p: "0 < Delay ?n" by simp_all
  have w: "\<forall>i<2 ^ 32 - 1. TaskID ?n \<noteq> g_NextTaskID ?s + of_nat i"
    using no_early_wrap by simp
  have "(add_then_delete ^^ (2 ^ 32 - 1)) ?s = ?s\<lparr>g_NextTaskID := 2 + of_nat (2 ^ 32 - 1)\<rparr>"
    using churn_behind [OF q p w] by simp
  then have "(add_then_delete ^^ (2 ^ 32 - 1)) ?s = ?s\<lparr>g_NextTaskID := 1\<rparr>"
    by simp
  then show ?thesis
    unfolding a
    by (simp add: SCH_Add_Task_def NULL_def insert_task_def boot_state_def dup_id_state_def)
qed

section \<open>Properties of the scheduler\<close>

subsection \<open>The delta-queue invariant\<close>

text \<open>
  C1 (as amended). In every state reached from \<open>SCH_Init\<close> by calls of \<open>SCH_Add_Task\<close>,
  \<open>SCH_Delete_Task\<close> and \<open>SCH_Update\<close>, for every queued node, the sum of the relative
  delays of that node and all nodes before it equals the delay the node was registered
  with minus the number of ticks since its registration that found the head of the
  queue with a positive delay. Ticks that arrive while the head is already at zero are
  not counted: they change no delay.
\<close>

theorem delta_queue_invariant:
  assumes "run ops (SCH_Init s0, []) = (s, g)" and "i < length (g_TaskListHead s)"
  shows "length g = length (g_TaskListHead s) \<and>
         TaskID (g_TaskListHead s ! i) = reg_id (g ! i) \<and>
         cum_delay (g_TaskListHead s) i + counted (g ! i) = requested (g ! i) \<and>
         cum_delay (g_TaskListHead s) i = requested (g ! i) - counted (g ! i) \<and>
         counted (g ! i) \<le> elapsed (g ! i)"
proof -
  let ?q = "g_TaskListHead s"
  have "tracked (fst (run ops (SCH_Init s0, []))) (snd (run ops (SCH_Init s0, [])))"
    by (rule tracked_run) (simp add: tracked_init)
  then have t: "tracked s g" using assms(1) by simp
  then have ceq: "cums 0 ?q = map (\<lambda>r. requested r - counted r) g"
    and ieq: "map TaskID ?q = map reg_id g"
    and b: "\<forall>r \<in> set g. counted r \<le> requested r \<and> requested r < 2 ^ 32 \<and>
        counted r \<le> elapsed r"
    by (simp_all add: tracked_def)
  from ieq have l: "length g = length ?q" by (metis length_map)
  with assms(2) have ig: "i < length g" by simp
  then have m: "g ! i \<in> set g" by (rule nth_mem)
  have "map TaskID ?q ! i = map reg_id g ! i" using ieq by simp
  then have id: "TaskID (?q ! i) = reg_id (g ! i)" using assms(2) ig by simp
  have "cums 0 ?q ! i = map (\<lambda>r. requested r - counted r) g ! i" using ceq by simp
  then have c: "cum_delay ?q i = requested (g ! i) - counted (g ! i)"
    using assms(2) ig by (simp add: cums_nth cum_delay_def)
  from l id c b m show ?thesis by auto
qed

theorem delta_queue_invariant_witness:
  "run sample_trace (SCH_Init boot_state, []) =
     (boot_state\<lparr>g_TaskListHead := [\<lparr>pTask = 8, Delay = 6, Period = 10, TaskID = 2\<rparr>],
                 g_CurrentTick := 1, g_NextTaskID := 3\<rparr>,
      [\<lparr>reg_id = 2, requested = 7, elapsed = 1, counted = 1\<rparr>]) \<and>
   cum_delay [\<lparr>pTask = 8, Delay = 6, Period = 10, TaskID = 2\<rparr>] 0 + 1 = 7"
proof -
  have h1: "run sample_trace (SCH_Init boot_state, []) =
     (boot_state\<lparr>g_TaskListHead := [\<lparr>pTask = 8, Delay = 6, Period = 10, TaskID = 2\<rparr>],
                 g_CurrentTick := 1, g_NextTaskID := 3\<rparr>,
      [\<lparr>reg_id = 2, requested = 7, elapsed = 1, counted = 1\<rparr>])"
    by (simp add: sample_trace_def boot_state_def SCH_Init_def SCH_Add_Task_def NULL_def
        insert_task_def link_index_def SCH_Update_def head_positive_def
        SCH_Delete_Task_def scan_length_def)
  have h2: "0 < length (g_TaskListHead
      (boot_state\<lparr>g_TaskListHead := [\<lparr>pTask = 8, Delay = 6, Period = 10, TaskID = 2\<rparr>],
                  g_CurrentTick := 1, g_NextTaskID := 3\<rparr>))"
    by simp
  from delta_queue_invariant [OF h1 h2] h1 show ?thesis by simp
qed

text \<open>
  C1 as stated fails: it counts every tick since registration. With a task of delay 0
  and a task of delay 5 queued, one tick leaves the second task's cumulative delay at 5,
  not at 5 - 1.
\<close>

theorem delta_queue_elapsed_counterexample:
  "map TaskID (g_TaskListHead (fst (run overdue_trace (SCH_Init boot_state, [])))) = [1, 2] \<and>
   map reg_id (snd (run overdue_trace (SCH_Init boot_state, []))) = [1, 2] \<and>
   cum_delay (g_TaskListHead (fst (run overdue_trace (SCH_Init boot_state, [])))) 1 = 5 \<and>
   requested (snd (run overdue_trace (SCH_Init boot_state, [])) ! 1) = 5 \<and>
   elapsed (snd (run overdue_trace (SCH_Init boot_state, [])) ! 1) = 1 \<and>
   cum_delay (g_TaskListHead (fst (run overdue_trace (SCH_Init boot_state, [])))) 1 \<noteq>
     requested (snd (run overdue_trace (SCH_Init boot_state, [])) ! 1) -
     elapsed (snd (run overdue_trace (SCH_Init boot_state, [])) ! 1)"
  by (simp add: overdue_trace_def boot_state_def SCH_Init_def SCH_Add_Task_def NULL_def
      insert_task_def link_index_def SCH_Update_def head_positive_def cum_delay_def)


subsection \<open>Failing registrations\<close>

text \<open>
  C4. A call of \<open>SCH_Add_Task\<close> with a null callback, or one whose allocation fails,
  returns the sentinel id \<open>0\<close> and stores error code \<open>1\<close>; the state is otherwise the
  state before the call: the queue with every node and delay, the id counter, the tick
  counter.
\<close>

theorem add_task_failure_atomic:
  "pFunction = NULL \<or> \<not> malloc_ok \<Longrightarrow>
     snd (SCH_Add_Task pFunction DELAY PERIOD malloc_ok s) = 0 \<and>
     g_ErrorCode (fst (SCH_Add_Task pFunction DELAY PERIOD malloc_ok s)) = 1 \<and>
     fst (SCH_Add_Task pFunction DELAY PERIOD malloc_ok s) = s\<lparr>g_ErrorCode := 1\<rparr>"
  by (auto simp: SCH_Add_Task_def ERROR_SCH_TOO_MANY_TASKS_def NO_TASK_ID_def)

theorem add_task_failure_atomic_witness:
  "(NULL = NULL \<or> \<not> True) \<and>
   snd (SCH_Add_Task NULL 5 0 True demo_state) = 0 \<and>
   g_ErrorCode (fst (SCH_Add_Task NULL 5 0 True demo_state)) = 1 \<and>
   g_TaskListHead (fst (SCH_Add_Task NULL 5 0 True demo_state)) = g_TaskListHead demo_state \<and>
   g_NextTaskID (fst (SCH_Add_Task NULL 5 0 True demo_state)) = 3"
proof -
  have h: "NULL = NULL \<or> \<not> True" by simp
  show ?thesis using add_task_failure_atomic [OF h, of 5 0 demo_state]
    by (simp add: demo_state_def)
qed

subsection \<open>The tick\<close>

text \<open>
  C5. \<open>SCH_Update\<close> adds one to the tick counter (modulo \<open>2^32\<close>) and leaves the id
  counter and the error register alone. The queue keeps its length and every node
  behind the head; the head has its delay reduced by one exactly when the queue is not
  empty and that delay is positive, and is untouched otherwise.
\<close>

theorem tick_frame:
  "g_CurrentTick (SCH_Update s) = g_CurrentTick s + 1 \<and>
   g_NextTaskID (SCH_Update s) = g_NextTaskID s \<and>
   g_ErrorCode (SCH_Update s) = g_ErrorCode s \<and>
   executed (SCH_Update s) = executed s \<and>
   length (g_TaskListHead (SCH_Update s)) = length (g_TaskListHead s) \<and>
   tl (g_TaskListHead (SCH_Update s)) = tl (g_TaskListHead s) \<and>
   (\<forall>h t. g_TaskListHead s = h # t \<longrightarrow>
      hd (g_TaskListHead (SCH_Update s)) =
        (if 0 < Delay h then h\<lparr>Delay := Delay h - 1\<rparr> else h))"
  by (auto simp: SCH_Update_def Let_def split: list.splits)

theorem tick_frame_witness:
  "g_TaskListHead demo_state = \<lparr>pTask = 7, Delay = 3, Period = 0, TaskID = 1\<rparr> #
                              [\<lparr>pTask = 8, Delay = 4, Period = 10, TaskID = 2\<rparr>] \<and>
   g_CurrentTick (SCH_Update demo_state) = 21 \<and>
   tl (g_TaskListHead (SCH_Update demo_state)) = [\<lparr>pTask = 8, Delay = 4, Period = 10, TaskID = 2\<rparr>] \<and>
   hd (g_TaskListHead (SCH_Update demo_state)) = \<lparr>pTask = 7, Delay = 2, Period = 0, TaskID = 1\<rparr>"
proof -
  have h: "g_TaskListHead demo_state = \<lparr>pTask = 7, Delay = 3, Period = 0, TaskID = 1\<rparr> #
                              [\<lparr>pTask = 8, Delay = 4, Period = 10, TaskID = 2\<rparr>]"
    by (simp add: demo_state_def)
  from tick_frame [of demo_state] h show ?thesis
    by (simp add: demo_state_def)
qed

subsection \<open>Deleting an id that is not queued\<close>

text \<open>
  C7. When no queued node carries the id, \<open>SCH_Delete_Task\<close> returns \<open>0\<close>, leaves
  a nonzero code in the error register, and leaves the queue (nodes, delays, order) and
  the counters as they were.
\<close>

theorem delete_missing_id:
  "taskID \<notin> TaskID ` set (g_TaskListHead s) \<Longrightarrow>
     snd (SCH_Delete_Task taskID s) = 0 \<and>
     g_ErrorCode (fst (SCH_Delete_Task taskID s)) \<noteq> 0 \<and>
     g_TaskListHead (fst (SCH_Delete_Task taskID s)) = g_TaskListHead s \<and>
     g_CurrentTick (fst (SCH_Delete_Task taskID s)) = g_CurrentTick s \<and>
     g_NextTaskID (fst (SCH_Delete_Task taskID s)) = g_NextTaskID s \<and>
     executed (fst (SCH_Delete_Task taskID s)) = executed s"
  by (simp add: SCH_Delete_Task_def delete_scan_absent
      ERROR_SCH_CANNOT_DELETE_TASK_def ERROR_SCH_TASK_NOT_FOUND_def)

theorem delete_missing_id_witness:
  "9 \<notin> TaskID ` set (g_TaskListHead demo_state) \<and>
   snd (SCH_Delete_Task 9 demo_state) = 0 \<and>
   g_ErrorCode (fst (SCH_Delete_Task 9 demo_state)) \<noteq> 0 \<and>
   g_TaskListHead (fst (SCH_Delete_Task 9 demo_state)) = g_TaskListHead demo_state"
proof -
  have h: "9 \<notin> TaskID ` set (g_TaskListHead demo_state)"
    by (simp add: demo_state_def)
  show ?thesis using h delete_missing_id [OF h] by simp
qed

text \<open>
  C10. The two ways for \<open>SCH_Delete_Task\<close> to fail store different codes: on an empty
  queue \<open>ERROR_SCH_CANNOT_DELETE_TASK\<close>, which is 2, and for an id absent from a
  non-empty queue \<open>ERROR_SCH_TASK_NOT_FOUND\<close>, which is 3. Both return \<open>0\<close>.
\<close>

theorem delete_error_codes:
  "(g_TaskListHead s = [] \<longrightarrow>
      SCH_Delete_Task taskID s = (s\<lparr>g_ErrorCode := ERROR_SCH_CANNOT_DELETE_TASK\<rparr>, 0)) \<and>
   (g_TaskListHead s \<noteq> [] \<and> taskID \<notin> TaskID ` set (g_TaskListHead s) \<longrightarrow>
      SCH_Delete_Task taskID s = (s\<lparr>g_ErrorCode := ERROR_SCH_TASK_NOT_FOUND\<rparr>, 0)) \<and>
   ERROR_SCH_CANNOT_DELETE_TASK = 2 \<and> ERROR_SCH_TASK_NOT_FOUND = 3 \<and>
   ERROR_SCH_CANNOT_DELETE_TASK \<noteq> ERROR_SCH_TASK_NOT_FOUND"
  by (simp add: SCH_Delete_Task_def delete_scan_absent
      ERROR_SCH_CANNOT_DELETE_TASK_def ERROR_SCH_TASK_NOT_FOUND_def)

theorem delete_error_codes_witness:
  "g_TaskListHead (SCH_Init demo_state) = [] \<and>
   g_ErrorCode (fst (SCH_Delete_Task 1 (SCH_Init demo_state))) = 2 \<and>
   snd (SCH_Delete_Task 1 (SCH_Init demo_state)) = 0 \<and>
   g_TaskListHead demo_state \<noteq> [] \<and> 9 \<notin> TaskID ` set (g_TaskListHead demo_state) \<and>
   g_ErrorCode (fst (SCH_Delete_Task 9 demo_state)) = 3 \<and>
   snd (SCH_Delete_Task 9 demo_state) = 0"
proof -
  have h1: "g_TaskListHead (SCH_Init demo_state) = []"
    by (simp add: SCH_Init_def demo_state_def)
  have h2: "g_TaskListHead demo_state \<noteq> [] \<and> 9 \<notin> TaskID ` set (g_TaskListHead demo_state)"
    by (simp add: demo_state_def)
  from delete_error_codes [of "SCH_Init demo_state" 1] delete_error_codes [of demo_state 9] h1 h2
  show ?thesis by simp
qed

subsection \<open>Reading the error register\<close>

text \<open>
  C8. \<open>SCH_Get_Error_Code\<close> returns the stored code and resets the register to zero,
  changing nothing else; a second call right after it returns zero. When the state is
  the result of a failing \<open>SCH_Add_Task\<close> or \<open>SCH_Delete_Task\<close>, the code returned by
  the first call is not zero.
\<close>

theorem error_read_and_clear:
  "snd (SCH_Get_Error_Code s) = g_ErrorCode s \<and>
   fst (SCH_Get_Error_Code s) = s\<lparr>g_ErrorCode := 0\<rparr> \<and>
   snd (SCH_Get_Error_Code (fst (SCH_Get_Error_Code s))) = 0 \<and>
   fst (SCH_Get_Error_Code (fst (SCH_Get_Error_Code s))) = fst (SCH_Get_Error_Code s) \<and>
   ((s = fst (SCH_Add_Task pFunction DELAY PERIOD malloc_ok s_before) \<and>
       (pFunction = NULL \<or> \<not> malloc_ok)) \<or>
    (s = fst (SCH_Delete_Task taskID s_before) \<and> snd (SCH_Delete_Task taskID s_before) = 0)
    \<longrightarrow> snd (SCH_Get_Error_Code s) \<noteq> 0)"
  by (auto simp: SCH_Get_Error_Code_def SCH_Add_Task_def SCH_Delete_Task_def
      ERROR_SCH_TOO_MANY_TASKS_def ERROR_SCH_CANNOT_DELETE_TASK_def ERROR_SCH_TASK_NOT_FOUND_def
      split: if_splits option.splits)

theorem error_read_and_clear_witness:
  "snd (SCH_Delete_Task 9 demo_state) = 0 \<and>
   snd (SCH_Get_Error_Code (fst (SCH_Delete_Task 9 demo_state))) = 3 \<and>
   snd (SCH_Get_Error_Code (fst (SCH_Get_Error_Code (fst (SCH_Delete_Task 9 demo_state))))) = 0"
proof -
  have h: "snd (SCH_Delete_Task 9 demo_state) = 0"
    by (simp add: SCH_Delete_Task_def demo_state_def)
  from error_read_and_clear [of "fst (SCH_Delete_Task 9 demo_state)" 7 0 0 True demo_state 9] h
  show ?thesis
    by (simp add: SCH_Delete_Task_def SCH_Get_Error_Code_def demo_state_def
        ERROR_SCH_TASK_NOT_FOUND_def)
qed

subsection \<open>Where a new task is linked in\<close>

text \<open>
  C2 (as amended). In a queue whose delays sum to less than \<open>2^32\<close>, a successful
  \<open>SCH_Add_Task\<close> links the new node in immediately before the first node whose
  cumulative delay is strictly greater than \<open>DELAY\<close>, that is, behind every node whose
  cumulative delay is at most \<open>DELAY\<close>: a new task with the same due time as a queued
  one goes behind it. The new node gets the id from the counter and a relative delay
  that makes its cumulative delay \<open>DELAY\<close>; the node after it gives up that much.
\<close>

theorem add_task_position:
  assumes "pFunction \<noteq> NULL" and "malloc_ok" and "total_delay (g_TaskListHead s) < 2 ^ 32"
  shows "let q = g_TaskListHead s;
             k = first_above DELAY q;
             d = DELAY - of_nat (total_delay (take k q));
             q' = g_TaskListHead (fst (SCH_Add_Task pFunction DELAY PERIOD malloc_ok s))
         in q' = take k q @
                 \<lparr>pTask = pFunction, Delay = d, Period = PERIOD, TaskID = g_NextTaskID s\<rparr> #
                 donate d (drop k q) \<and>
            snd (SCH_Add_Task pFunction DELAY PERIOD malloc_ok s) = g_NextTaskID s \<and>
            cum_delay q' k = unat DELAY \<and>
            (\<forall>i<k. cum_delay q i \<le> unat DELAY) \<and>
            (\<forall>i. k \<le> i \<and> i < length q \<longrightarrow> unat DELAY < cum_delay q i)"
proof -
  define q where "q = g_TaskListHead s"
  define k where "k = first_above DELAY q"
  define d where "d = DELAY - of_nat (total_delay (take k q))"
  define q' where "q' = g_TaskListHead (fst (SCH_Add_Task pFunction DELAY PERIOD malloc_ok s))"
  have shape: "q' = take k q @
      \<lparr>pTask = pFunction, Delay = d, Period = PERIOD, TaskID = g_NextTaskID s\<rparr> # donate d (drop k q)"
    using assms insert_task_char [of q _ DELAY]
    by (simp add: q'_def q_def k_def d_def SCH_Add_Task_def Let_def)
  have ret: "snd (SCH_Add_Task pFunction DELAY PERIOD malloc_ok s) = g_NextTaskID s"
    using assms by (simp add: SCH_Add_Task_def Let_def)
  have kl: "k \<le> length q" unfolding k_def by (rule first_above_le)
  have "unat d = unat DELAY - total_delay (take k q)"
    unfolding d_def k_def using total_take_first_above by (rule unat_slack)
  then have cum: "cum_delay q' k = unat DELAY"
    using kl total_take_first_above [of DELAY q]
    by (simp add: shape cum_delay_def k_def)
  have before: "\<forall>i<k. cum_delay q i \<le> unat DELAY"
    unfolding k_def by (simp add: first_above_before)
  have after: "\<forall>i. k \<le> i \<and> i < length q \<longrightarrow> unat DELAY < cum_delay q i"
    unfolding k_def by (simp add: first_above_after)
  from shape ret cum before after show ?thesis
    unfolding q_def [symmetric] Let_def k_def [symmetric] d_def [symmetric] q'_def [symmetric]
    by simp
qed

theorem add_task_position_witness:
  "7 \<noteq> NULL \<and> True \<and> total_delay (g_TaskListHead demo_state) < 2 ^ 32 \<and>
   first_above 7 (g_TaskListHead demo_state) = 2 \<and>
   g_TaskListHead (fst (SCH_Add_Task 7 7 0 True demo_state)) =
     [\<lparr>pTask = 7, Delay = 3, Period = 0, TaskID = 1\<rparr>,
      \<lparr>pTask = 8, Delay = 4, Period = 10, TaskID = 2\<rparr>,
      \<lparr>pTask = 7, Delay = 0, Period = 0, TaskID = 3\<rparr>] \<and>
   cum_delay (g_TaskListHead demo_state) 1 = 7 \<and>
   cum_delay (g_TaskListHead (fst (SCH_Add_Task 7 7 0 True demo_state))) 2 = 7"
proof -
  have h1: "7 \<noteq> NULL" by (simp add: NULL_def)
  have h3: "total_delay (g_TaskListHead demo_state) < 2 ^ 32"
    by (simp add: demo_state_def)
  have k: "first_above 7 (g_TaskListHead demo_state) = 2"
    by (simp add: first_above_def cum_delay_def demo_state_def)
  from add_task_position [OF h1 TrueI h3, of 7 0] h1 h3 k show ?thesis
    by (simp add: Let_def donate_def cum_delay_def demo_state_def)
qed

text \<open>
  C2 as stated fails. With tasks 1 and 2 queued at cumulative delays 3 and 7, a task
  added with delay 7 is not linked in before task 2, the first node whose cumulative
  delay is at least 7: it ends up last.
\<close>

theorem add_task_tie_counterexample:
  "cum_delay (g_TaskListHead demo_state) 1 = unat (7 :: u32) \<and>
   first_at_least 7 (g_TaskListHead demo_state) = 1 \<and>
   \<not> placed_at (first_at_least 7 (g_TaskListHead demo_state))
        (snd (SCH_Add_Task 7 7 0 True demo_state))
        (g_TaskListHead demo_state)
        (g_TaskListHead (fst (SCH_Add_Task 7 7 0 True demo_state))) \<and>
   map TaskID (g_TaskListHead (fst (SCH_Add_Task 7 7 0 True demo_state))) = [1, 2, 3] \<and>
   snd (SCH_Add_Task 7 7 0 True demo_state) = 3"
  by (simp add: first_at_least_def placed_at_def cum_delay_def demo_state_def
      SCH_Add_Task_def insert_task_def NULL_def)

subsection \<open>What dispatch does with a due task\<close>

text \<open>
  C6 (as amended). Let \<open>z\<close> be the \<open>j\<close>-th node of the queue, one of the nodes of zero
  delay at the front. \<open>SCH_Dispatch_Tasks\<close> runs the callbacks of exactly these front
  nodes, in queue order, and leaves the counters and the error register alone; the queue
  afterwards is the part behind the front with every periodic front node whose
  allocation succeeded inserted, in order, with its period as delay, so every front node
  has left the queue and one node per such periodic node has come in.
  If the period of \<open>z\<close> is nonzero and the allocation of iteration \<open>j\<close> succeeds, the queue
  afterwards holds a node with the id, callback and period of \<open>z\<close>, and its cumulative
  delay is the period when the relative delays of the queue summed to less than \<open>2^32\<close>.
  If the period of \<open>z\<close> is zero and no other queued node carries its id, no node of the
  queue afterwards has that id and \<open>SCH_Delete_Task\<close> with that id returns \<open>0\<close>.
  Distinct ids stay distinct.
\<close>

theorem dispatch_postcondition:
  assumes "j < due_count (g_TaskListHead s)"
  shows "let q = g_TaskListHead s;
             d = due_count q;
             z = q ! j;
             s' = SCH_Dispatch_Tasks malloc_ok s;
             q' = g_TaskListHead s'
         in executed s' = executed s @ filter (\<lambda>f. f \<noteq> NULL) (map pTask (take d q)) \<and>
            q' = requeue malloc_ok 0 (take d q) (drop d q) \<and>
            length q' = length q - d +
                        length (filter (\<lambda>i. Period (q ! i) \<noteq> 0 \<and> malloc_ok i) [0..<d]) \<and>
            g_CurrentTick s' = g_CurrentTick s \<and> g_NextTaskID s' = g_NextTaskID s \<and>
            g_ErrorCode s' = g_ErrorCode s \<and>
            (Period z \<noteq> 0 \<and> malloc_ok j \<longrightarrow>
               (\<exists>i<length q'. TaskID (q' ! i) = TaskID z \<and> pTask (q' ! i) = pTask z \<and>
                               Period (q' ! i) = Period z \<and>
                               (total_delay q < 2 ^ 32 \<longrightarrow> cum_delay q' i = unat (Period z)))) \<and>
            (Period z = 0 \<and> TaskID z \<notin> TaskID ` set (take j q @ drop (Suc j) q) \<longrightarrow>
               TaskID z \<notin> TaskID ` set q' \<and> snd (SCH_Delete_Task (TaskID z) s') = 0) \<and>
            (distinct (map TaskID q) \<longrightarrow> distinct (map TaskID q'))"
proof -
  define q where "q = g_TaskListHead s"
  define d where "d = due_count q"
  define zs where "zs = takeWhile (\<lambda>n. Delay n = 0) q"
  define rest where "rest = dropWhile (\<lambda>n. Delay n = 0) q"
  define z where "z = q ! j"
  define s' where "s' = SCH_Dispatch_Tasks malloc_ok s"
  define q' where "q' = g_TaskListHead s'"
  have split: "q = zs @ rest" and zs0: "\<forall>z \<in> set zs. Delay z = 0"
    and r0: "rest = [] \<or> Delay (hd rest) \<noteq> 0"
    unfolding zs_def rest_def using due_split [of q] by blast+
  have dl: "d = length zs" by (simp add: d_def due_count_def zs_def)
  have jl: "j < length zs" using assms by (simp add: due_count_def zs_def q_def)
  then have jq: "j < length q" by (simp add: split)
  have zj: "z = zs ! j" using jl by (simp add: z_def split nth_append)
  then have zin: "z \<in> set zs" using jl by simp
  have tk: "take d q = zs" and dr: "drop d q = rest"
    by (simp_all add: dl split)
  have S: "g_TaskListHead s = zs @ rest" using split by (simp add: q_def)
  have q'eq: "q' = requeue malloc_ok 0 zs rest"
    unfolding q'_def s'_def SCH_Dispatch_Tasks_def using zs0 r0 S by (rule dispatch_loop_queue)
  have ex: "executed s' = executed s @ filter (\<lambda>f. f \<noteq> NULL) (map pTask (take d q))"
    unfolding tk s'_def SCH_Dispatch_Tasks_def using zs0 r0 S by (rule dispatch_loop_executed)
  have "\<forall>i \<in> set [0..<length zs]. zs ! i = q ! i" by (simp add: split nth_append)
  then have "filter (\<lambda>i. Period (zs ! i) \<noteq> 0 \<and> malloc_ok (0 + i)) [0..<length zs] =
             filter (\<lambda>i. Period (q ! i) \<noteq> 0 \<and> malloc_ok i) [0..<length zs]"
    by (intro filter_cong) simp_all
  then have len: "length q' = length q - d +
      length (filter (\<lambda>i. Period (q ! i) \<noteq> 0 \<and> malloc_ok i) [0..<d])"
    unfolding q'eq length_requeue by (simp add: dl split)
  have tick: "g_CurrentTick s' = g_CurrentTick s"
    unfolding s'_def SCH_Dispatch_Tasks_def by (rule dispatch_loop_tick)
  have nid: "g_NextTaskID s' = g_NextTaskID s"
    unfolding s'_def SCH_Dispatch_Tasks_def by (rule dispatch_loop_next_id)
  have err: "g_ErrorCode s' = g_ErrorCode s"
    unfolding s'_def SCH_Dispatch_Tasks_def by (rule dispatch_loop_error)
  have dist: "distinct (map TaskID q) \<longrightarrow> distinct (map TaskID q')"
  proof
    assume "distinct (map TaskID q)"
    then have "distinct (map TaskID zs @ map TaskID rest)" by (simp add: split)
    then show "distinct (map TaskID q')" unfolding q'eq by (rule requeue_distinct)
  qed
  have per0: "\<exists>i<length q'. TaskID (q' ! i) = TaskID z \<and> pTask (q' ! i) = pTask z \<and>
                 Period (q' ! i) = Period z \<and>
                 (total_delay q < 2 ^ 32 \<longrightarrow> cum_delay q' i = unat (Period z))"
    if p: "Period z \<noteq> 0" and ok: "malloc_ok j"
  proof (cases "total_delay q < 2 ^ 32")
    case True
    then have nw: "no_wrap rest" by (simp add: no_wrap_def split)
    have "0 < Period (zs ! j)" using p zj by (simp add: word_gt_0)
    moreover have "malloc_ok (0 + j)" using ok by simp
    ultimately have "(key (zs ! j), unat (Period (zs ! j))) \<in> set (entries q')"
      unfolding q'eq using jl nw by (intro requeue_periodic)
    then obtain i where i: "i < length (entries q')"
      and e: "entries q' ! i = (key z, unat (Period z))"
      unfolding zj by (auto simp: in_set_conv_nth)
    from i have il: "i < length q'" by (simp add: entries_def)
    with e have "key (q' ! i) = key z" "cums 0 q' ! i = unat (Period z)"
      by (simp_all add: entries_def)
    then have "TaskID (q' ! i) = TaskID z \<and> pTask (q' ! i) = pTask z \<and>
        Period (q' ! i) = Period z \<and> cum_delay q' i = unat (Period z)"
      using il by (simp add: key_def cums_nth cum_delay_def)
    with il show ?thesis by blast
  next
    case False
    have "0 < Period (zs ! j)" using p zj by (simp add: word_gt_0)
    moreover have "malloc_ok (0 + j)" using ok by simp
    ultimately have "key (zs ! j) \<in> key ` set q'"
      unfolding q'eq using jl by (intro requeue_has_key)
    then obtain x where "x \<in> set q'" "key x = key z" unfolding zj by auto
    then obtain i where "i < length q'" "key (q' ! i) = key z"
      by (auto simp: in_set_conv_nth)
    with False show ?thesis by (auto simp: key_def)
  qed
  have per: "Period z \<noteq> 0 \<and> malloc_ok j \<longrightarrow>
      (\<exists>i<length q'. TaskID (q' ! i) = TaskID z \<and> pTask (q' ! i) = pTask z \<and>
                 Period (q' ! i) = Period z \<and>
                 (total_delay q < 2 ^ 32 \<longrightarrow> cum_delay q' i = unat (Period z)))"
    using per0 by (intro impI) (erule conjE)
  have one0: "TaskID z \<notin> TaskID ` set q' \<and> snd (SCH_Delete_Task (TaskID z) s') = 0"
    if p: "Period z = 0" and u: "TaskID z \<notin> TaskID ` set (take j q @ drop (Suc j) q)"
  proof -
    have "Suc j \<le> d" using jl by (simp add: dl)
    then have "set (drop d q) \<subseteq> set (drop (Suc j) q)"
      by (rule set_drop_subset_set_drop)
    then have "set rest \<subseteq> set (drop (Suc j) q)" by (simp only: dr)
    then have a1: "TaskID z \<notin> TaskID ` set rest" using u by auto
    have a2: "TaskID z \<notin> TaskID ` {x \<in> set zs. Period x \<noteq> 0}"
    proof
      assume "TaskID z \<in> TaskID ` {x \<in> set zs. Period x \<noteq> 0}"
      then obtain x where x: "x \<in> set zs" "Period x \<noteq> 0" "TaskID z = TaskID x" by auto
      from x(2) p have "x \<noteq> q ! j" by (auto simp: z_def)
      moreover have "x \<in> set q" using x(1) by (simp add: split)
      ultimately have "x \<in> set (take j q @ drop (Suc j) q)"
        using jq by (intro others_split)
      with u x(3) show False by auto
    qed
    from a1 a2 have a: "TaskID z \<notin> TaskID ` set q'"
      unfolding q'eq using requeue_ids [of malloc_ok 0 zs rest] by blast
    then have "delete_scan (TaskID z) (g_TaskListHead s') = None"
      unfolding q'_def by (rule delete_scan_absent)
    then have "snd (SCH_Delete_Task (TaskID z) s') = 0"
      by (simp add: SCH_Delete_Task_def)
    with a show ?thesis by simp
  qed
  have one: "Period z = 0 \<and> TaskID z \<notin> TaskID ` set (take j q @ drop (Suc j) q) \<longrightarrow>
      TaskID z \<notin> TaskID ` set q' \<and> snd (SCH_Delete_Task (TaskID z) s') = 0"
    using one0 by (intro impI) (erule conjE)
  have shape: "q' = requeue malloc_ok 0 (take d q) (drop d q)"
    unfolding tk dr by (rule q'eq)
  from ex shape len tick nid err per one dist show ?thesis
    unfolding Let_def q_def [symmetric] d_def [symmetric] z_def [symmetric]
      s'_def [symmetric] q'_def [symmetric]
    by - (intro conjI; assumption)
qed

theorem dispatch_postcondition_witness:
  "1 < due_count (g_TaskListHead dispatch_demo_state) \<and>
   (Period (g_TaskListHead dispatch_demo_state ! 0) \<noteq> 0 \<and> True) \<and>
   total_delay (g_TaskListHead dispatch_demo_state) < 2 ^ 32 \<and>
   (Period (g_TaskListHead dispatch_demo_state ! 1) = 0 \<and>
    TaskID (g_TaskListHead dispatch_demo_state ! 1) \<notin>
      TaskID ` set (take 1 (g_TaskListHead dispatch_demo_state) @
                    drop (Suc 1) (g_TaskListHead dispatch_demo_state))) \<and>
   distinct (map TaskID (g_TaskListHead dispatch_demo_state)) \<and>
   SCH_Dispatch_Tasks (\<lambda>k. True) dispatch_demo_state =
     dispatch_demo_state\<lparr>g_TaskListHead := [\<lparr>pTask = 7, Delay = 5, Period = 5, TaskID = 1\<rparr>,
                                              \<lparr>pTask = 9, Delay = 2, Period = 0, TaskID = 3\<rparr>],
                         executed := [7, 8]\<rparr> \<and>
   cum_delay (g_TaskListHead (SCH_Dispatch_Tasks (\<lambda>k. True) dispatch_demo_state)) 0 = 5 \<and>
   snd (SCH_Delete_Task 2 (SCH_Dispatch_Tasks (\<lambda>k. True) dispatch_demo_state)) = 0"
proof -
  have h1: "1 < due_count (g_TaskListHead dispatch_demo_state)"
    by (simp add: dispatch_demo_state_def due_count_def)
  then have h0: "0 < due_count (g_TaskListHead dispatch_demo_state)" by simp
  have h2: "Period (g_TaskListHead dispatch_demo_state ! 0) \<noteq> 0"
    by (simp add: dispatch_demo_state_def)
  have h3: "total_delay (g_TaskListHead dispatch_demo_state) < 2 ^ 32"
    by (simp add: dispatch_demo_state_def)
  have h4: "Period (g_TaskListHead dispatch_demo_state ! 1) = 0 \<and>
    TaskID (g_TaskListHead dispatch_demo_state ! 1) \<notin>
      TaskID ` set (take 1 (g_TaskListHead dispatch_demo_state) @
                    drop (Suc 1) (g_TaskListHead dispatch_demo_state))"
    by (simp add: dispatch_demo_state_def)
  have h5: "distinct (map TaskID (g_TaskListHead dispatch_demo_state))"
    by (simp add: dispatch_demo_state_def)
  have r: "SCH_Dispatch_Tasks (\<lambda>k. True) dispatch_demo_state =
      dispatch_demo_state\<lparr>g_TaskListHead := [\<lparr>pTask = 7, Delay = 5, Period = 5, TaskID = 1\<rparr>,
                                               \<lparr>pTask = 9, Delay = 2, Period = 0, TaskID = 3\<rparr>],
                          executed := [7, 8]\<rparr>"
    by (simp add: SCH_Dispatch_Tasks_def dispatch_demo_state_def head_due_def dispatch_one_def
        NULL_def insert_task_def)
  have c: "cum_delay [\<lparr>pTask = 7, Delay = 5, Period = 5, TaskID = 1\<rparr>,
                      \<lparr>pTask = 9, Delay = 2, Period = 0, TaskID = 3\<rparr>] 0 = 5"
    by (simp add: cum_delay_def)
  from dispatch_postcondition [OF h0, of "\<lambda>k. True"] h2 h3
  have "\<exists>i<length (g_TaskListHead (SCH_Dispatch_Tasks (\<lambda>k. True) dispatch_demo_state)).
          TaskID (g_TaskListHead (SCH_Dispatch_Tasks (\<lambda>k. True) dispatch_demo_state) ! i) = 1 \<and>
          cum_delay (g_TaskListHead (SCH_Dispatch_Tasks (\<lambda>k. True) dispatch_demo_state)) i = 5"
    by (auto simp: Let_def dispatch_demo_state_def)
  moreover from dispatch_postcondition [OF h1, of "\<lambda>k. True"] h4
  have "snd (SCH_Delete_Task 2 (SCH_Dispatch_Tasks (\<lambda>k. True) dispatch_demo_state)) = 0"
    by (simp add: Let_def dispatch_demo_state_def)
  ultimately show ?thesis using h1 h2 h3 h4 h5 r c by simp
qed

text \<open>
  C6 as stated fails in two ways. When the allocation fails, a due periodic task is not
  put back: the queue is empty afterwards. And when another queued task carries the id
  of a due one-shot task (here after the id counter has gone round), the id is still
  found after the dispatch: \<open>SCH_Delete_Task\<close> with it returns \<open>1\<close>.
\<close>

theorem dispatch_postcondition_counterexample:
  "0 < due_count (g_TaskListHead periodic_due_state) \<and>
   Period (g_TaskListHead periodic_due_state ! 0) \<noteq> 0 \<and>
   g_TaskListHead (SCH_Dispatch_Tasks (\<lambda>k. False) periodic_due_state) = [] \<and>
   fst (SCH_Add_Task 8 0 0 True
         ((add_then_delete ^^ (2 ^ 32 - 1)) (fst (SCH_Add_Task 7 4 0 True boot_state)))) =
     dup_id_state \<and>
   0 < due_count (g_TaskListHead dup_id_state) \<and>
   Period (g_TaskListHead dup_id_state ! 0) = 0 \<and>
   TaskID (g_TaskListHead dup_id_state ! 0) = 1 \<and>
   executed (SCH_Dispatch_Tasks (\<lambda>k. True) dup_id_state) = [8] \<and>
   snd (SCH_Delete_Task 1 (SCH_Dispatch_Tasks (\<lambda>k. True) dup_id_state)) = 1"
proof -
  have a: "0 < due_count (g_TaskListHead periodic_due_state) \<and>
      Period (g_TaskListHead periodic_due_state ! 0) \<noteq> 0 \<and>
      g_TaskListHead (SCH_Dispatch_Tasks (\<lambda>k. False) periodic_due_state) = []"
    by (simp add: SCH_Dispatch_Tasks_def periodic_due_state_def due_count_def head_due_def
        dispatch_one_def NULL_def)
  have r: "SCH_Dispatch_Tasks (\<lambda>k. True) dup_id_state =
      dup_id_state\<lparr>g_TaskListHead := [\<lparr>pTask = 7, Delay = 4, Period = 0, TaskID = 1\<rparr>],
                   executed := [8]\<rparr>"
    by (simp add: SCH_Dispatch_Tasks_def dup_id_state_def head_due_def dispatch_one_def NULL_def)
  have b: "0 < due_count (g_TaskListHead dup_id_state) \<and>
      Period (g_TaskListHead dup_id_state ! 0) = 0 \<and>
      TaskID (g_TaskListHead dup_id_state ! 0) = 1"
    by (simp add: dup_id_state_def due_count_def)
  have c: "executed (SCH_Dispatch_Tasks (\<lambda>k. True) dup_id_state) = [8] \<and>
      snd (SCH_Delete_Task 1 (SCH_Dispatch_Tasks (\<lambda>k. True) dup_id_state)) = 1"
    unfolding r by (simp add: SCH_Delete_Task_def dup_id_state_def)
  from a dup_id_reachable b c show ?thesis by simp
qed

subsection \<open>Dispatch and the error register\<close>

text \<open>
  C3. When the allocation for rescheduling fails, the periodic task is gone from the
  queue after \<open>SCH_Dispatch_Tasks\<close>, and the error register still holds zero:
  \<open>SCH_Get_Error_Code\<close> reports no error.
\<close>

theorem dispatch_reschedule_failure_silent:
  "SCH_Dispatch_Tasks (\<lambda>k. False) periodic_due_state =
     periodic_due_state\<lparr>g_TaskListHead := [], executed := [7]\<rparr> \<and>
   g_ErrorCode (SCH_Dispatch_Tasks (\<lambda>k. False) periodic_due_state) = 0 \<and>
   snd (SCH_Get_Error_Code (SCH_Dispatch_Tasks (\<lambda>k. False) periodic_due_state)) = 0"
  by (simp add: SCH_Dispatch_Tasks_def periodic_due_state_def head_due_def dispatch_one_def
      NULL_def SCH_Get_Error_Code_def)

subsection \<open>The id counter\<close>

text \<open>
  C9. After \<open>2^32 - 1\<close> registrations following \<open>SCH_Init\<close> (each task deleted again,
  so the queue stays empty) the id counter has wrapped to zero: the next successful
  \<open>SCH_Add_Task\<close> queues a task with id \<open>0\<close> and returns \<open>0\<close>, the value of
  \<open>NO_TASK_ID\<close>, and sets the counter back to \<open>1\<close>.
\<close>

theorem task_id_wraps_to_sentinel:
  "SCH_Init boot_state = boot_state \<and>
   SCH_Add_Task 7 5 0 True ((add_then_delete ^^ (2 ^ 32 - 1)) boot_state) =
     (boot_state\<lparr>g_TaskListHead := [\<lparr>pTask = 7, Delay = 5, Period = 0, TaskID = 0\<rparr>]\<rparr>,
      NO_TASK_ID)"
proof -
  have e: "g_TaskListHead boot_state = []"
    by (simp add: boot_state_def)
  have "(add_then_delete ^^ (2 ^ 32 - 1)) boot_state = boot_state\<lparr>g_NextTaskID := 0\<rparr>"
    unfolding churn_counter [OF e] by (simp add: boot_state_def)
  then show ?thesis
    by (simp add: SCH_Add_Task_def SCH_Init_def NULL_def insert_task_def boot_state_def
        NO_TASK_ID_def)
qed

end
